theory Spec2Isabelle
  imports Complex_Main "HOL-Library.Multiset" "HOL-Library.Log_Nat"
begin

section \<open>Data model\<close>

text \<open>
  The quiz generator of \<^verbatim>\<open>src/main.py\<close> (class \<^verbatim>\<open>TestMaker\<close>).  A loaded row is the
  Python dict \<^verbatim>\<open>{'term': ..., 'definition': ...}\<close>; the pool
  \<^verbatim>\<open>self.terms_definitions\<close> is a list of such rows, indexed from 0.  Strings are lists of
  characters; a character stands for one code point, and the model covers the code points
  below 256.  List positions and lengths are natural numbers, every other Python integer
  is an \<open>int\<close>.
\<close>

record item =
  term_of :: string
  definition_of :: string

type_synonym pool = "item list"

text \<open>The exceptions the modelled code can raise.\<close>

datatype py_error = IndexError | ValueError | EOFError | OSError

text \<open>
  What a question generator returns: the triple \<^verbatim>\<open>(question, options, correct_answer)\<close>.
  The triple \<^verbatim>\<open>(None, None, None)\<close> is \<open>None\<close>.
\<close>

type_synonym question = "string \<times> string list \<times> string"

section \<open>Strings\<close>

text \<open>
  \<^verbatim>\<open>str.isspace\<close> on one character: the code points below 256 that Python counts as
  whitespace are 9 to 13, 28 to 32, 133 and 160.
\<close>

definition isspace :: "char \<Rightarrow> bool" where
  "isspace c = (let n = (of_char c :: nat) in
     (9 \<le> n \<and> n \<le> 13) \<or> (28 \<le> n \<and> n \<le> 32) \<or> n = 133 \<or> n = 160)"

text \<open>\<^verbatim>\<open>str.strip()\<close>: leading and trailing whitespace removed.\<close>

definition strip :: "string \<Rightarrow> string" where
  "strip s = rev (dropWhile isspace (rev (dropWhile isspace s)))"

text \<open>
  \<^verbatim>\<open>str.upper()\<close>.  Lower-case ASCII and Latin-1 letters move to their capitals and the
  sharp s (223) becomes \<^verbatim>\<open>SS\<close>.  Python sends the micro sign (181) and y with diaeresis
  (255) to capitals above code point 255; the model leaves these two in place.  Digits
  and whitespace are fixed points and no character is mapped to one, which is all that
  \<open>display_question\<close> depends on.
\<close>

definition upper_char :: "char \<Rightarrow> string" where
  "upper_char c = (let n = (of_char c :: nat) in
     if 97 \<le> n \<and> n \<le> 122 then [char_of (n - 32)]
     else if n = 223 then ''SS''
     else if 224 \<le> n \<and> n \<le> 254 \<and> n \<noteq> 247 then [char_of (n - 32)]
     else [c])"

definition upper :: "string \<Rightarrow> string" where
  "upper s = concat (map upper_char s)"

text \<open>\<^verbatim>\<open>str(n)\<close> for a non-negative integer: its decimal digits.\<close>

fun str :: "nat \<Rightarrow> string" where
  "str n = (if n < 10 then [char_of (48 + n)] else str (n div 10) @ [char_of (48 + n mod 10)])"

declare str.simps [simp del]

text \<open>A text between single quotes, as the f-strings of the prompts write it.\<close>

definition quoted :: "string \<Rightarrow> string" where
  "quoted s = [CHR 0x27] @ s @ [CHR 0x27]"

section \<open>The Data Loader\<close>

text \<open>
  \<^verbatim>\<open>load_csv\<close>, lines 14 to 32.  The loop over the rows of \<^verbatim>\<open>csv.reader\<close> appends to
  \<^verbatim>\<open>data\<close>; \<open>load_rows\<close> is that loop, with \<^verbatim>\<open>data\<close> as accumulator.  A row is the list of
  its fields.
\<close>

fun load_rows :: "string list list \<Rightarrow> item list \<Rightarrow> item list" where
  "load_rows [] data = data"
| "load_rows (row # rows) data =
     (if length row \<ge> 2 then
        (let t = strip (row ! 0); d = strip (row ! 1) in
         if t \<noteq> [] \<and> d \<noteq> [] then load_rows rows (data @ [\<lparr>term_of = t, definition_of = d\<rparr>])
         else load_rows rows data)
      else load_rows rows data)"

text \<open>
  Opening or reading the file either raises (\<open>Inl\<close>: both \<^verbatim>\<open>except\<close> branches return the
  empty list, whatever had been appended) or yields all its rows (\<open>Inr\<close>).
\<close>

definition load_csv :: "py_error + string list list \<Rightarrow> item list" where
  "load_csv file = (case file of Inl e \<Rightarrow> [] | Inr rows \<Rightarrow> load_rows rows [])"

text \<open>
  The loader as the specification words it: a row is kept when it has at least two fields
  and its first two fields are non-empty after trimming; a kept row gives the record of
  its two trimmed fields.
\<close>

definition usable_row :: "string list \<Rightarrow> bool" where
  "usable_row row = (length row \<ge> 2 \<and> strip (row ! 0) \<noteq> [] \<and> strip (row ! 1) \<noteq> [])"

definition record_of_row :: "string list \<Rightarrow> item" where
  "record_of_row row = \<lparr>term_of = strip (row ! 0), definition_of = strip (row ! 1)\<rparr>"

definition spec_load :: "string list list \<Rightarrow> item list" where
  "spec_load rows = map record_of_row (filter usable_row rows)"

section \<open>The random module\<close>

text \<open>
  The generators draw from Python's process-wide generator through \<^verbatim>\<open>random.choice\<close>,
  \<^verbatim>\<open>random.sample\<close> and \<^verbatim>\<open>random.shuffle\<close>.  The generator's state is modelled by the
  sequence of raw draws it is going to deliver, a tape that reads 0 once it is used up.
  \<open>randbelow n\<close> is \<^verbatim>\<open>Random._randbelow(n)\<close>: a number below \<open>n\<close>.  Every result Python
  can produce is the result of some tape, so a statement about all tapes covers every
  behaviour of the program.
\<close>

type_synonym rng = "nat list"

fun randbelow :: "nat \<Rightarrow> rng \<Rightarrow> nat \<times> rng" where
  "randbelow n [] = (0, [])"
| "randbelow n (r # g) = (r mod n, g)"

text \<open>\<^verbatim>\<open>random.choice(seq)\<close> raises \<^verbatim>\<open>IndexError\<close> on an empty sequence.\<close>

definition choice :: "'a list \<Rightarrow> rng \<Rightarrow> py_error + ('a \<times> rng)" where
  "choice seq g =
     (if seq = [] then Inl IndexError
      else (let (j, g1) = randbelow (length seq) g in Inr (seq ! j, g1)))"

text \<open>
  \<^verbatim>\<open>random.sample(population, k)\<close> raises \<^verbatim>\<open>ValueError\<close> unless \<open>0 \<le> k \<le> len(population)\<close>.
  Otherwise it draws \<open>k\<close> times from a copy of the population, each time moving the
  last remaining element into the place of the one drawn.  (For a large population
  CPython keeps the drawn positions in a set instead; either way the possible results
  are the lists of \<open>k\<close> elements at distinct positions.)
\<close>

fun sample_loop :: "'a list \<Rightarrow> nat \<Rightarrow> rng \<Rightarrow> 'a list \<times> rng" where
  "sample_loop pl 0 g = ([], g)"
| "sample_loop pl (Suc k) g =
     (let (j, g1) = randbelow (length pl) g;
          (rest, g2) = sample_loop (butlast (pl[j := last pl])) k g1
      in (pl ! j # rest, g2))"

definition sample :: "'a list \<Rightarrow> int \<Rightarrow> rng \<Rightarrow> py_error + ('a list \<times> rng)" where
  "sample population k g =
     (if 0 \<le> k \<and> k \<le> int (length population)
      then Inr (sample_loop population (nat k) g)
      else Inl ValueError)"

text \<open>
  \<^verbatim>\<open>random.shuffle(x)\<close>: for \<open>i\<close> from \<open>len(x) - 1\<close> down to 1, swap \<open>x[i]\<close> with \<open>x[j]\<close>
  for a drawn \<open>j \<le> i\<close>.
\<close>

fun shuffle_loop :: "nat \<Rightarrow> 'a list \<Rightarrow> rng \<Rightarrow> 'a list \<times> rng" where
  "shuffle_loop 0 x g = (x, g)"
| "shuffle_loop (Suc i) x g =
     (let (j, g1) = randbelow (Suc i + 1) g
      in shuffle_loop i (x[Suc i := x ! j, j := x ! Suc i]) g1)"

definition shuffle :: "'a list \<Rightarrow> rng \<Rightarrow> 'a list \<times> rng" where
  "shuffle x g = shuffle_loop (length x - 1) x g"

text \<open>\<^verbatim>\<open>list.index(v)\<close>: the first position of \<open>v\<close>, or \<^verbatim>\<open>ValueError\<close>.\<close>

fun index :: "'a list \<Rightarrow> 'a \<Rightarrow> py_error + nat" where
  "index [] v = Inl ValueError"
| "index (x # xs) v =
     (if x = v then Inr 0
      else (case index xs v of Inl e \<Rightarrow> Inl e | Inr n \<Rightarrow> Inr (Suc n)))"

section \<open>The question generators\<close>

text \<open>
  Each generator takes the pool, the set \<^verbatim>\<open>used_indices\<close> and the state of the random
  generator.  It returns what the Python call returns or raises (\<open>Inl\<close> an exception,
  \<open>Inr None\<close> the triple of \<^verbatim>\<open>None\<close>, \<open>Inr (Some q)\<close> a question), the set as the call
  leaves it (the caller's set is mutated in place, also when the call raises later) and
  the new state of the random generator.
\<close>

type_synonym outcome = "(py_error + question option) \<times> nat set \<times> rng"

text \<open>
  Lines 110, 139 and 168: the indices of the pool that are not in \<^verbatim>\<open>used_indices\<close>.
  Every index at which a generator reads the pool is drawn from this list, hence below
  the length of the pool (\<open>set_available_indices\<close> below): the reads
  \<^verbatim>\<open>self.terms_definitions[i]\<close> never raise.
\<close>

definition available_indices :: "pool \<Rightarrow> nat set \<Rightarrow> nat list" where
  "available_indices tds used = filter (\<lambda>i. i \<notin> used) [0..<length tds]"

definition definition_prompt :: "item \<Rightarrow> string" where
  "definition_prompt correct_item =
     ''What is the definition of '' @ quoted (term_of correct_item) @ ''?''"

definition term_prompt :: "item \<Rightarrow> string" where
  "term_prompt correct_item =
     ''Which term matches this definition: '' @ quoted (definition_of correct_item) @ ''?''"

definition tf_prompt :: "string \<Rightarrow> string \<Rightarrow> string" where
  "tf_prompt t d = ''True or False: The term '' @ quoted t @ '' means '' @ quoted d"

text \<open>\<^verbatim>\<open>generate_definition_question\<close>, lines 107 to 135.\<close>

definition generate_definition_question :: "pool \<Rightarrow> nat set \<Rightarrow> int \<Rightarrow> rng \<Rightarrow> outcome" where
  "generate_definition_question tds used num_choices g =
     (let available = available_indices tds used in
      if int (length available) < num_choices then (Inr None, used, g)
      else (case choice available g of
        Inl e \<Rightarrow> (Inl e, used, g)
      | Inr (correct_idx, g1) \<Rightarrow>
          (let correct_item = tds ! correct_idx;
               used1 = insert correct_idx used
           in case sample (filter (\<lambda>i. i \<noteq> correct_idx) available) (num_choices - 1) g1 of
             Inl e \<Rightarrow> (Inl e, used1, g1)
           | Inr (distractor_indices, g2) \<Rightarrow>
               (let distractors = map (\<lambda>i. definition_of (tds ! i)) distractor_indices;
                    (options, g3) = shuffle (definition_of correct_item # distractors) g2
                in case index options (definition_of correct_item) of
                     Inl e \<Rightarrow> (Inl e, used1, g3)
                   | Inr n \<Rightarrow>
                       (Inr (Some (definition_prompt correct_item, options, str (n + 1))),
                        used1, g3)))))"

text \<open>\<^verbatim>\<open>generate_term_question\<close>, lines 137 to 164.\<close>

definition generate_term_question :: "pool \<Rightarrow> nat set \<Rightarrow> int \<Rightarrow> rng \<Rightarrow> outcome" where
  "generate_term_question tds used num_choices g =
     (let available = available_indices tds used in
      if int (length available) < num_choices then (Inr None, used, g)
      else (case choice available g of
        Inl e \<Rightarrow> (Inl e, used, g)
      | Inr (correct_idx, g1) \<Rightarrow>
          (let correct_item = tds ! correct_idx;
               used1 = insert correct_idx used
           in case sample (filter (\<lambda>i. i \<noteq> correct_idx) available) (num_choices - 1) g1 of
             Inl e \<Rightarrow> (Inl e, used1, g1)
           | Inr (distractor_indices, g2) \<Rightarrow>
               (let distractors = map (\<lambda>i. term_of (tds ! i)) distractor_indices;
                    (options, g3) = shuffle (term_of correct_item # distractors) g2
                in case index options (term_of correct_item) of
                     Inl e \<Rightarrow> (Inl e, used1, g3)
                   | Inr n \<Rightarrow>
                       (Inr (Some (term_prompt correct_item, options, str (n + 1))),
                        used1, g3)))))"

text \<open>
  Lines 110 to 124 and, word for word, lines 139 to 153, on their own: the sufficiency
  check, the draw of \<^verbatim>\<open>correct_idx\<close>, its entry into the set and the draw of
  \<^verbatim>\<open>distractor_indices\<close>.  The indices are local variables of the generators;
  \<open>pick_indices\<close> names them so that theorems can speak about them.
\<close>

definition pick_indices ::
  "pool \<Rightarrow> nat set \<Rightarrow> int \<Rightarrow> rng \<Rightarrow> (py_error + (nat \<times> nat list) option) \<times> nat set \<times> rng" where
  "pick_indices tds used num_choices g =
     (let available = available_indices tds used in
      if int (length available) < num_choices then (Inr None, used, g)
      else (case choice available g of
        Inl e \<Rightarrow> (Inl e, used, g)
      | Inr (correct_idx, g1) \<Rightarrow>
          (let used1 = insert correct_idx used in
           case sample (filter (\<lambda>i. i \<noteq> correct_idx) available) (num_choices - 1) g1 of
             Inl e \<Rightarrow> (Inl e, used1, g1)
           | Inr (distractor_indices, g2) \<Rightarrow>
               (Inr (Some (correct_idx, distractor_indices)), used1, g2))))"

text \<open>
  Lines 125 to 135 and 154 to 164 after \<open>pick_indices\<close>: the texts of the options, correct
  one first, the shuffle, the position of the correct text and the prompt.  \<open>text_of\<close> is
  the field the options show.  Both choice generators are instances of it
  (\<open>generate_definition_question_eq\<close> and \<open>generate_term_question_eq\<close> below).
\<close>

definition build_choice_question ::
  "(item \<Rightarrow> string) \<Rightarrow> (item \<Rightarrow> string) \<Rightarrow> pool \<Rightarrow> nat set \<Rightarrow> int \<Rightarrow> rng \<Rightarrow> outcome" where
  "build_choice_question text_of prompt tds used num_choices g =
     (case pick_indices tds used num_choices g of
        (Inl e, used1, g1) \<Rightarrow> (Inl e, used1, g1)
      | (Inr None, used1, g1) \<Rightarrow> (Inr None, used1, g1)
      | (Inr (Some (correct_idx, distractor_indices)), used1, g2) \<Rightarrow>
          (let correct_item = tds ! correct_idx;
               distractors = map (\<lambda>i. text_of (tds ! i)) distractor_indices;
               (options, g3) = shuffle (text_of correct_item # distractors) g2
           in case index options (text_of correct_item) of
                Inl e \<Rightarrow> (Inl e, used1, g3)
              | Inr n \<Rightarrow> (Inr (Some (prompt correct_item, options, str (n + 1))), used1, g3)))"

text \<open>\<^verbatim>\<open>generate_tf_question\<close>, lines 166 to 194.\<close>

definition generate_tf_question :: "pool \<Rightarrow> nat set \<Rightarrow> rng \<Rightarrow> outcome" where
  "generate_tf_question tds used g =
     (let available = available_indices tds used in
      if available = [] then (Inr None, used, g)
      else (case choice [True, False] g of
        Inl e \<Rightarrow> (Inl e, used, g)
      | Inr (is_true, g1) \<Rightarrow>
          (case choice available g1 of
             Inl e \<Rightarrow> (Inl e, used, g1)
           | Inr (correct_idx, g2) \<Rightarrow>
               (let correct_item = tds ! correct_idx;
                    used1 = insert correct_idx used
                in if is_true then
                     (Inr (Some (tf_prompt (term_of correct_item) (definition_of correct_item),
                                 [''True'', ''False''], ''1'')), used1, g2)
                   else (case choice (filter (\<lambda>i. i \<noteq> correct_idx) available) g2 of
                     Inl e \<Rightarrow> (Inl e, used1, g2)
                   | Inr (wrong_idx, g3) \<Rightarrow>
                       (Inr (Some (tf_prompt (term_of correct_item) (definition_of (tds ! wrong_idx)),
                                   [''True'', ''False''], ''2'')), used1, g3))))))"

section \<open>The session\<close>

text \<open>
  \<^verbatim>\<open>display_question\<close>, lines 196 to 209.  What it prints is not modelled.  It reads lines
  from standard input until one, upper-cased and stripped, is the number of an option;
  \<^verbatim>\<open>input()\<close> raises \<^verbatim>\<open>EOFError\<close> when the input has ended.  It returns the answer and
  the input that is left.
\<close>

fun display_question :: "string list \<Rightarrow> string list \<Rightarrow> py_error + (string \<times> string list)" where
  "display_question options [] = Inl EOFError"
| "display_question options (line # rest) =
     (let answer = strip (upper line) in
      if answer \<noteq> [] \<and> answer \<in> set (map (\<lambda>i. str (i + 1)) [0..<length options])
      then Inr (answer, rest)
      else display_question options rest)"

text \<open>The dict that \<^verbatim>\<open>get_user_preferences\<close> returns (lines 96 to 102).\<close>

record preferences =
  def_questions :: int
  def_choices :: int
  term_questions :: int
  term_choices :: int
  tf_questions :: int

text \<open>
  The conditions under which \<^verbatim>\<open>get_user_preferences\<close> returns the numbers the user typed
  instead of asking again (lines 47 to 94), for a pool of \<open>max_possible\<close> rows.
\<close>

definition accepted_preferences :: "nat \<Rightarrow> preferences \<Rightarrow> bool" where
  "accepted_preferences max_possible p =
     (0 \<le> def_questions p \<and> def_questions p \<le> int max_possible \<and>
      (if def_questions p > 0 then 2 \<le> def_choices p \<and> def_choices p \<le> int max_possible
       else def_choices p = 4) \<and>
      0 \<le> term_questions p \<and> term_questions p \<le> int max_possible \<and>
      (if term_questions p > 0 then 2 \<le> term_choices p \<and> term_choices p \<le> int max_possible
       else term_choices p = 4) \<and>
      0 \<le> tf_questions p \<and> tf_questions p \<le> int max_possible \<and>
      def_questions p + term_questions p + tf_questions p \<noteq> 0 \<and>
      def_questions p + term_questions p + tf_questions p \<le> int max_possible)"

text \<open>
  The local variables of \<^verbatim>\<open>run_test\<close> (lines 218 to 221), together with the two streams
  the run consumes: the state of the random generator and the lines still to be read
  from standard input.
\<close>

record run_state =
  score :: int
  total_questions :: int
  used_indices :: "nat set"
  question_number :: int
  random_state :: rng
  stdin :: "string list"

definition initial_state :: "rng \<Rightarrow> string list \<Rightarrow> run_state" where
  "initial_state g inp =
     \<lparr>score = 0, total_questions = 0, used_indices = {}, question_number = 1,
      random_state = g, stdin = inp\<rparr>"

type_synonym generator = "nat set \<Rightarrow> rng \<Rightarrow> outcome"

text \<open>
  One pass through the body of a \<^verbatim>\<open>for\<close> loop of \<^verbatim>\<open>run_test\<close> (lines 225 to 239, 243 to 257
  and 261 to 273, which differ in the generator only): the exception ends the program,
  \<^verbatim>\<open>None\<close> leaves the loop with \<^verbatim>\<open>break\<close>, and otherwise the question is asked and scored.
\<close>

datatype step = Raised py_error | Stopped run_state | Answered question string run_state

definition ask :: "generator \<Rightarrow> run_state \<Rightarrow> step" where
  "ask generate s =
     (case generate (used_indices s) (random_state s) of
        (Inl e, used1, g1) \<Rightarrow> Raised e
      | (Inr None, used1, g1) \<Rightarrow> Stopped (s\<lparr>used_indices := used1, random_state := g1\<rparr>)
      | (Inr (Some (question, options, correct_answer)), used1, g1) \<Rightarrow>
          (case display_question options (stdin s) of
             Inl e \<Rightarrow> Raised e
           | Inr (user_answer, rest) \<Rightarrow>
               Answered (question, options, correct_answer) user_answer
                 (s\<lparr>score := (if user_answer = correct_answer then score s + 1 else score s),
                    total_questions := total_questions s + 1,
                    question_number := question_number s + 1,
                    used_indices := used1, random_state := g1, stdin := rest\<rparr>)))"

text \<open>
  A \<^verbatim>\<open>for _ in range(n)\<close> loop of \<^verbatim>\<open>run_test\<close>.  Besides the state it ends in (or the
  exception) it returns one event per answered question: the question, the user's
  answer and the state after the question was scored.
\<close>

type_synonym event = "question \<times> string \<times> run_state"

fun question_block :: "generator \<Rightarrow> nat \<Rightarrow> run_state \<Rightarrow> event list \<times> (py_error + run_state)" where
  "question_block generate 0 s = ([], Inr s)"
| "question_block generate (Suc n) s =
     (case ask generate s of
        Raised e \<Rightarrow> ([], Inl e)
      | Stopped s1 \<Rightarrow> ([], Inr s1)
      | Answered q a s1 \<Rightarrow>
          (let (events, r) = question_block generate n s1 in ((q, a, s1) # events, r)))"

text \<open>
  Python's floats are IEEE 754 binary64 numbers.  \<open>to_double q\<close> is the binary64 number
  nearest to the rational \<open>q\<close>, ties going to the even significand; it is what a float
  operation returns when its exact result is \<open>q\<close> and \<open>q\<close> is within the range of the
  finite floats, as every value of \<^verbatim>\<open>run_test\<close> is.  \<open>binade q\<close> is the exponent of the
  power of two at or below \<open>q\<close>.
\<close>

definition round_half_even :: "rat \<Rightarrow> int" where
  "round_half_even q =
     (let f = \<lfloor>q\<rfloor>; d = q - of_int f in
      if d < 1 / 2 then f else if d > 1 / 2 then f + 1 else if even f then f else f + 1)"

definition binade :: "rat \<Rightarrow> int" where
  "binade q =
     (let (a, b) = quotient_of q; d = bitlen a - bitlen b in
      if 2 powi d \<le> q then d else d - 1)"

definition to_double :: "rat \<Rightarrow> rat" where
  "to_double q =
     (if q = 0 then 0
      else (let e = max (binade \<bar>q\<bar>) (- 1022); quantum = 2 powi (e - 52)
            in sgn q * of_int (round_half_even (\<bar>q\<bar> / quantum)) * quantum))"

text \<open>Line 276: \<^verbatim>\<open>(score / total_questions) * 100 if total_questions > 0 else 0\<close>.\<close>

definition percentage_of :: "int \<Rightarrow> int \<Rightarrow> rat" where
  "percentage_of sc tot =
     (if tot > 0 then to_double (to_double (of_int sc / of_int tot) * 100) else 0)"

text \<open>
  Lines 280 to 289: the closing remark.  The constructors stand for the five messages,
  in the order of the source.
\<close>

datatype band = Excellent | Great | Good | Passed | KeepPracticing

definition band_of :: "rat \<Rightarrow> band" where
  "band_of percentage =
     (if percentage \<ge> 90 then Excellent
      else if percentage \<ge> 80 then Great
      else if percentage \<ge> 70 then Good
      else if percentage \<ge> 60 then Passed
      else KeepPracticing)"

text \<open>What lines 276 to 289 print: the score, the number of questions, the percentage and the remark.\<close>

record report =
  rep_score :: int
  rep_total :: int
  rep_percentage :: rat
  rep_band :: band

definition final_results :: "run_state \<Rightarrow> report" where
  "final_results s =
     (let percentage = percentage_of (score s) (total_questions s) in
      \<lparr>rep_score = score s, rep_total = total_questions s,
       rep_percentage = percentage, rep_band = band_of percentage\<rparr>)"

text \<open>
  \<^verbatim>\<open>run_test\<close>, lines 211 to 289, for the preferences that \<^verbatim>\<open>get_user_preferences\<close> returned:
  the block of definition questions, the block of term questions, the block of
  True/False questions and the final results.  An exception in a block ends the run.
  The events of the blocks are returned one after the other.
\<close>

definition run_test :: "pool \<Rightarrow> preferences \<Rightarrow> rng \<Rightarrow> string list \<Rightarrow> event list \<times> (py_error + report)" where
  "run_test tds p g inp =
     (let (ev1, r1) = question_block (\<lambda>used. generate_definition_question tds used (def_choices p))
                        (nat (def_questions p)) (initial_state g inp)
      in case r1 of
           Inl e \<Rightarrow> (ev1, Inl e)
         | Inr s1 \<Rightarrow>
             (let (ev2, r2) = question_block (\<lambda>used. generate_term_question tds used (term_choices p))
                                (nat (term_questions p)) s1
              in case r2 of
                   Inl e \<Rightarrow> (ev1 @ ev2, Inl e)
                 | Inr s2 \<Rightarrow>
                     (let (ev3, r3) = question_block (generate_tf_question tds)
                                        (nat (tf_questions p)) s2
                      in case r3 of
                           Inl e \<Rightarrow> (ev1 @ ev2 @ ev3, Inl e)
                         | Inr s3 \<Rightarrow> (ev1 @ ev2 @ ev3, Inr (final_results s3)))))"

text \<open>The parts of a question and of an event.\<close>

definition correct_label :: "question \<Rightarrow> string" where
  "correct_label q = snd (snd q)"

definition asked :: "event \<Rightarrow> question" where
  "asked e = fst e"

definition answer_given :: "event \<Rightarrow> string" where
  "answer_given e = fst (snd e)"

definition state_after :: "event \<Rightarrow> run_state" where
  "state_after e = snd (snd e)"

text \<open>
  The state in which question \<open>i\<close> of a run was generated: the initial state for the
  first question, the state after the previous question otherwise.
\<close>

definition state_before :: "rng \<Rightarrow> string list \<Rightarrow> event list \<Rightarrow> nat \<Rightarrow> run_state" where
  "state_before g inp events i =
     (if i = 0 then initial_state g inp else snd (snd (events ! (i - 1))))"

text \<open>The state a list of events ends in, when it started in state \<open>s\<close>.\<close>

definition end_state :: "run_state \<Rightarrow> event list \<Rightarrow> run_state" where
  "end_state s events = last (s # map (\<lambda>e. snd (snd e)) events)"

text \<open>
  \<open>linked P s events\<close>: every event satisfies \<open>P\<close> together with the state before it, the
  first event with \<open>s\<close>.
\<close>

fun linked :: "(run_state \<Rightarrow> event \<Rightarrow> bool) \<Rightarrow> run_state \<Rightarrow> event list \<Rightarrow> bool" where
  "linked P s [] = True"
| "linked P s (e # es) = (P s e \<and> linked P (snd (snd e)) es)"

text \<open>
  Question \<open>q\<close> has row \<open>c\<close> of the pool as its correct answer: its prompt is one of the
  three prompts about row \<open>c\<close>.
\<close>

definition asks_about :: "pool \<Rightarrow> nat \<Rightarrow> question \<Rightarrow> bool" where
  "asks_about tds c q =
     (fst q = definition_prompt (tds ! c) \<or> fst q = term_prompt (tds ! c) \<or>
      (\<exists>w \<in> set [0..<length tds]. fst q = tf_prompt (term_of (tds ! c)) (definition_of (tds ! w))))"

text \<open>
  What one answered question does to the state: the count of questions goes up by one,
  the score by one exactly when the answer is the correct label, and the set of used
  indices gains one index of the pool that it did not hold, the index of the row the
  question is about.
\<close>

definition scored_step :: "pool \<Rightarrow> run_state \<Rightarrow> event \<Rightarrow> bool" where
  "scored_step tds s e =
     (case e of (q, a, s1) \<Rightarrow>
        total_questions s1 = total_questions s + 1 \<and>
        score s1 = (if a = snd (snd q) then score s + 1 else score s) \<and>
        (\<exists>c \<in> set [0..<length tds]. c \<notin> used_indices s \<and>
           used_indices s1 = insert c (used_indices s) \<and> asks_about tds c q))"

text \<open>
  What the blocks need of a generator: returning \<^verbatim>\<open>None\<close> it leaves the set and the
  random generator as they were, and returning a question it adds to the set one index
  of the pool, new to the set, of the row the question is about.
\<close>

definition sound_generator :: "pool \<Rightarrow> generator \<Rightarrow> bool" where
  "sound_generator tds generate =
     (\<forall>used g used1 g1 q.
        (generate used g = (Inr None, used1, g1) \<longrightarrow> used1 = used \<and> g1 = g) \<and>
        (generate used g = (Inr (Some q), used1, g1) \<longrightarrow>
           (\<exists>c \<in> set [0..<length tds]. c \<notin> used \<and> used1 = insert c used \<and> asks_about tds c q)))"

text \<open>Example pools: the pool of the specification's scenario, and a pool of one row.\<close>

definition net_pool :: pool where
  "net_pool =
     [\<lparr>term_of = ''HTTP'', definition_of = ''HyperText Transfer Protocol''\<rparr>,
      \<lparr>term_of = ''DNS'', definition_of = ''Domain Name System''\<rparr>,
      \<lparr>term_of = ''TCP'', definition_of = ''Transmission Control Protocol''\<rparr>,
      \<lparr>term_of = ''IP'', definition_of = ''Internet Protocol''\<rparr>]"

definition one_pool :: pool where
  "one_pool = [\<lparr>term_of = ''HTTP'', definition_of = ''HyperText Transfer Protocol''\<rparr>]"

text \<open>A pool of ten rows, \<^verbatim>\<open>t0\<close> to \<^verbatim>\<open>t9\<close> with definitions \<^verbatim>\<open>d0\<close> to \<^verbatim>\<open>d9\<close>.\<close>

definition ten_pool :: pool where
  "ten_pool = map (\<lambda>i. \<lparr>term_of = ''t'' @ str i, definition_of = ''d'' @ str i\<rparr>) [0..<10]"

text \<open>A pool in which two rows have the same definition.\<close>

definition twin_pool :: pool where
  "twin_pool =
     [\<lparr>term_of = ''big'', definition_of = ''large''\<rparr>,
      \<lparr>term_of = ''huge'', definition_of = ''large''\<rparr>,
      \<lparr>term_of = ''tiny'', definition_of = ''small''\<rparr>]"

text \<open>
  Two example runs.  \<open>demo_run\<close> asks four questions about the four-row pool; the user
  types a wrong label, then a line that is no label, then right labels.  \<open>perfect_run\<close>
  asks ten questions about the ten-row pool and the user gives the correct label each
  time.
\<close>

definition demo_preferences :: preferences where
  "demo_preferences =
     \<lparr>def_questions = 1, def_choices = 4, term_questions = 1, term_choices = 2, tf_questions = 2\<rparr>"

definition demo_run :: "event list \<times> (py_error + report)" where
  "demo_run = run_test net_pool demo_preferences [1, 2, 3, 4, 5, 6, 7, 8, 9]
     [''1'', ''x'', '' 2 '', ''2'', ''1'']"

definition perfect_preferences :: preferences where
  "perfect_preferences =
     \<lparr>def_questions = 4, def_choices = 2, term_questions = 3, term_choices = 3, tf_questions = 3\<rparr>"

definition perfect_run :: "event list \<times> (py_error + report)" where
  "perfect_run = run_test ten_pool perfect_preferences []
     [''2'', ''2'', ''2'', ''2'', ''3'', ''3'', ''3'', ''1'', ''1'', ''1'']"

section \<open>The Data Loader: proofs\<close>

lemma load_rows_acc: "load_rows rows data = data @ spec_load rows"
  by (induction rows arbitrary: data)
     (simp_all add: spec_load_def usable_row_def record_of_row_def Let_def)

text \<open>An example: a good row, a short row, a row with a blank field, a padded row.\<close>

lemma load_csv_example:
  "load_csv (Inr [[''HTTP'', ''HyperText Transfer Protocol''], [''DNS''], [''TCP'', ''  ''],
                  ['' IP '', '' Internet Protocol'', ''extra'']]) =
     [\<lparr>term_of = ''HTTP'', definition_of = ''HyperText Transfer Protocol''\<rparr>,
      \<lparr>term_of = ''IP'', definition_of = ''Internet Protocol''\<rparr>]"
  by code_simp

text \<open>
  Claim C8.  For every sequence of parsed rows the loader returns, in input order, exactly
  the records of the rows that have at least two fields whose first two fields are
  non-empty after trimming, each record holding those two trimmed fields; every other row
  contributes nothing.
\<close>

theorem load_csv_keeps_usable_rows:
  "load_csv (Inr rows) = map record_of_row (filter usable_row rows)"
  using load_rows_acc [of rows "[]"] by (simp add: load_csv_def spec_load_def)

section \<open>The random module: proofs\<close>

lemma randbelow_less: "0 < n \<Longrightarrow> fst (randbelow n g) < n"
  by (cases g) simp_all

lemma choice_Nil: "choice [] g = Inl IndexError"
  by (simp add: choice_def)

lemma choice_Inr: "choice seq g = Inr (x, g') \<Longrightarrow> x \<in> set seq"
  using randbelow_less [of "length seq" g]
  by (auto simp: choice_def split: if_splits prod.splits)

lemma choice_nonempty: "seq \<noteq> [] \<Longrightarrow> \<exists>x g'. choice seq g = Inr (x, g') \<and> x \<in> set seq"
  using randbelow_less [of "length seq" g]
  by (auto simp: choice_def split: prod.splits)

lemma mset_drawn:
  assumes "j < length pl"
  shows "add_mset (pl ! j) (mset (butlast (pl[j := last pl]))) = mset pl"
proof -
  from assms have ne: "pl \<noteq> []" by auto
  then have pl: "mset pl = add_mset (last pl) (mset (butlast pl))"
    by (metis append_butlast_last_id mset.simps(2) mset_append union_mset_add_mset_right add.right_neutral mset.simps(1))
  show ?thesis
  proof (cases "j = length pl - 1")
    case True
    with ne have "pl ! j = last pl" by (simp add: last_conv_nth)
    then show ?thesis using pl by (simp add: True butlast_list_update)
  next
    case False
    with assms have j: "j < length (butlast pl)" by simp
    then have "butlast pl ! j = pl ! j" by (simp add: nth_butlast)
    moreover from j have "pl ! j \<in># mset (butlast pl)"
      using calculation nth_mem_mset by metis
    ultimately show ?thesis using False j pl
      by (simp add: butlast_list_update mset_update)
  qed
qed

lemma sample_loop_mset:
  "k \<le> length pl \<Longrightarrow> mset (fst (sample_loop pl k g)) \<subseteq># mset pl"
proof (induction k arbitrary: pl g)
  case 0
  then show ?case by simp
next
  case (Suc k)
  obtain j g1 where r: "randbelow (length pl) g = (j, g1)" by force
  from Suc.prems have "0 < length pl" by auto
  with r have j: "j < length pl" using randbelow_less [of "length pl" g] by simp
  let ?pl = "butlast (pl[j := last pl])"
  from Suc.prems have "k \<le> length ?pl" by simp
  from Suc.IH [OF this, of g1]
  have "add_mset (pl ! j) (mset (fst (sample_loop ?pl k g1))) \<subseteq># add_mset (pl ! j) (mset ?pl)"
    by simp
  then show ?case using r mset_drawn [OF j] by (simp add: split_beta)
qed

lemma sample_loop_length: "length (fst (sample_loop pl k g)) = k"
  by (induction k arbitrary: pl g) (simp_all add: split_beta)

lemma shuffle_loop_mset:
  "i < length x \<or> i = 0 \<Longrightarrow> mset (fst (shuffle_loop i x g)) = mset x"
proof (induction i arbitrary: x g)
  case 0
  then show ?case by simp
next
  case (Suc i)
  then have i: "Suc i < length x" by simp
  obtain j g1 where r: "randbelow (Suc i + 1) g = (j, g1)" by force
  then have j: "j < length x" using randbelow_less [of "Suc i + 1" g] i by simp
  let ?x = "x[Suc i := x ! j, j := x ! Suc i]"
  have "mset ?x = mset x" using mset_swap [OF j i] .
  moreover have "mset (fst (shuffle_loop i ?x g1)) = mset ?x"
    using i by (intro Suc.IH) simp
  ultimately show ?case using r by simp
qed

lemma shuffle_mset: "mset (fst (shuffle x g)) = mset x"
  unfolding shuffle_def by (rule shuffle_loop_mset) (cases x; simp)

lemma index_finds:
  "v \<in> set xs \<Longrightarrow> \<exists>n. index xs v = Inr n \<and> n < length xs \<and> xs ! n = v"
  by (induction xs) auto

lemma index_Inr: "index xs v = Inr n \<Longrightarrow> n < length xs \<and> xs ! n = v"
  by (induction xs arbitrary: n) (auto split: if_splits sum.splits)

lemma set_available_indices:
  "set (available_indices tds used) = {i. i < length tds \<and> i \<notin> used}"
  by (auto simp: available_indices_def)

lemma distinct_available_indices: "distinct (available_indices tds used)"
  by (simp add: available_indices_def)

lemma distinct_sub_mset: "mset ys \<subseteq># mset xs \<Longrightarrow> distinct xs \<Longrightarrow> distinct ys"
proof -
  assume sub: "mset ys \<subseteq># mset xs" and d: "distinct xs"
  have "count (mset ys) a = (if a \<in> set ys then 1 else 0)" for a
  proof -
    have "count (mset ys) a \<le> count (mset xs) a" using sub by (rule mset_subset_eq_count)
    also have "\<dots> \<le> 1" using d by (simp add: distinct_count_atmost_1)
    finally have le1: "count (mset ys) a \<le> 1" .
    show ?thesis
    proof (cases "a \<in> set ys")
      case True
      then have "count (mset ys) a \<noteq> 0" by (simp add: count_eq_zero_iff)
      with le1 have "count (mset ys) a = 1" by linarith
      with True show ?thesis by simp
    next
      case False
      then show ?thesis by (simp add: count_eq_zero_iff)
    qed
  qed
  then show ?thesis by (simp add: distinct_count_atmost_1)
qed

lemma sample_Inr:
  assumes "sample population k g = Inr (res, g')"
  shows "int (length res) = k \<and> mset res \<subseteq># mset population"
proof -
  from assms have k: "0 \<le> k" "k \<le> int (length population)"
    and r: "sample_loop population (nat k) g = (res, g')"
    by (auto simp: sample_def split: if_splits)
  from k have "nat k \<le> length population" by simp
  from sample_loop_mset [OF this, of g] sample_loop_length [of population "nat k" g] r k
  show ?thesis by simp
qed

lemma sample_ok:
  "0 \<le> k \<Longrightarrow> k \<le> int (length population) \<Longrightarrow> \<exists>res g'. sample population k g = Inr (res, g')"
  by (simp add: sample_def)

lemma pick_indices_short:
  "int (length (available_indices tds used)) < k \<Longrightarrow> pick_indices tds used k g = (Inr None, used, g)"
  by (simp add: pick_indices_def)

lemma pick_indices_NoneD:
  "pick_indices tds used k g = (Inr None, used', g') \<Longrightarrow>
     used' = used \<and> g' = g \<and> int (length (available_indices tds used)) < k"
  by (auto simp: pick_indices_def Let_def split: if_splits sum.splits prod.splits)

lemma pick_indices_SomeD:
  assumes "pick_indices tds used k g = (Inr (Some (c, ds)), used', g')"
  shows "c \<in> set (available_indices tds used) \<and> used' = insert c used \<and> distinct ds \<and>
         set ds \<subseteq> set (available_indices tds used) - {c} \<and> int (length ds) = k - 1 \<and>
         k \<le> int (length (available_indices tds used))"
proof -
  let ?av = "available_indices tds used"
  from assms obtain g1 where
      le: "\<not> int (length ?av) < k"
    and c: "choice ?av g = Inr (c, g1)"
    and s: "sample (filter (\<lambda>i. i \<noteq> c) ?av) (k - 1) g1 = Inr (ds, g')"
    and u: "used' = insert c used"
    by (auto simp: pick_indices_def Let_def split: if_splits sum.splits prod.splits)
  from sample_Inr [OF s] have len: "int (length ds) = k - 1"
    and sub: "mset ds \<subseteq># mset (filter (\<lambda>i. i \<noteq> c) ?av)" by simp_all
  have "distinct (filter (\<lambda>i. i \<noteq> c) ?av)" by (simp add: distinct_available_indices)
  with sub have "distinct ds" by (rule distinct_sub_mset)
  moreover from sub have "set ds \<subseteq> set (filter (\<lambda>i. i \<noteq> c) ?av)"
    by (metis set_mset_mono set_mset_mset)
  then have "set ds \<subseteq> set ?av - {c}" by auto
  ultimately show ?thesis using choice_Inr [OF c] u len le by simp
qed

lemma filter_neq_absent: "c \<notin> set xs \<Longrightarrow> filter (\<lambda>i. i \<noteq> c) xs = xs"
  by (induction xs) auto

lemma length_filter_neq:
  assumes "distinct xs" "c \<in> set xs"
  shows "length (filter (\<lambda>i. i \<noteq> c) xs) = length xs - 1"
  using assms
proof (induction xs)
  case Nil
  then show ?case by simp
next
  case (Cons a xs)
  show ?case
  proof (cases "a = c")
    case True
    with Cons.prems show ?thesis by (simp add: filter_neq_absent)
  next
    case False
    with Cons.prems have "c \<in> set xs" "distinct xs" by auto
    moreover from this have "0 < length xs" by (auto simp: length_pos_if_in_set)
    ultimately show ?thesis using False Cons.IH by simp
  qed
qed

lemma pick_indices_enough:
  assumes "1 \<le> k" "k \<le> int (length (available_indices tds used))"
  shows "\<exists>c ds g'. pick_indices tds used k g = (Inr (Some (c, ds)), insert c used, g')"
proof -
  let ?av = "available_indices tds used"
  from assms have "?av \<noteq> []" by auto
  from choice_nonempty [OF this, of g] obtain c g1
    where c: "choice ?av g = Inr (c, g1)" and cin: "c \<in> set ?av" by blast
  have "length (filter (\<lambda>i. i \<noteq> c) ?av) = length ?av - 1"
    using distinct_available_indices cin by (rule length_filter_neq)
  with assms have "0 \<le> k - 1" "k - 1 \<le> int (length (filter (\<lambda>i. i \<noteq> c) ?av))" by auto
  from sample_ok [OF this, of g1] obtain ds g'
    where "sample (filter (\<lambda>i. i \<noteq> c) ?av) (k - 1) g1 = Inr (ds, g')" by blast
  with c assms show ?thesis by (simp add: pick_indices_def)
qed

section \<open>The choice generators: proofs\<close>

lemma generate_definition_question_eq:
  "generate_definition_question tds used k g =
     build_choice_question definition_of definition_prompt tds used k g"
  by (simp add: generate_definition_question_def build_choice_question_def pick_indices_def Let_def
      split: sum.splits prod.splits option.splits)

lemma generate_term_question_eq:
  "generate_term_question tds used k g = build_choice_question term_of term_prompt tds used k g"
  by (simp add: generate_term_question_def build_choice_question_def pick_indices_def Let_def
      split: sum.splits prod.splits option.splits)

lemma build_choice_question_NoneD:
  assumes "build_choice_question text_of prompt tds used k g = (Inr None, used', g')"
  shows "pick_indices tds used k g = (Inr None, used', g')"
  using assms
  by (auto simp: build_choice_question_def Let_def split: sum.splits prod.splits option.splits)

lemma build_choice_question_SomeD:
  assumes "build_choice_question text_of prompt tds used k g = (Inr (Some (q, opts, label)), used', g')"
  shows "\<exists>c ds g2 n. pick_indices tds used k g = (Inr (Some (c, ds)), used', g2) \<and>
           q = prompt (tds ! c) \<and>
           mset opts = mset (text_of (tds ! c) # map (\<lambda>i. text_of (tds ! i)) ds) \<and>
           index opts (text_of (tds ! c)) = Inr n \<and> label = str (n + 1)"
proof -
  from assms obtain c ds g2 n where
      p: "pick_indices tds used k g = (Inr (Some (c, ds)), used', g2)"
    and s: "shuffle (text_of (tds ! c) # map (\<lambda>i. text_of (tds ! i)) ds) g2 = (opts, g')"
    and i: "index opts (text_of (tds ! c)) = Inr n"
    and q: "q = prompt (tds ! c)" "label = str (n + 1)"
    by (auto simp: build_choice_question_def Let_def split: sum.splits prod.splits option.splits)
  from s shuffle_mset [of "text_of (tds ! c) # map (\<lambda>i. text_of (tds ! i)) ds" g2]
  have "mset opts = mset (text_of (tds ! c) # map (\<lambda>i. text_of (tds ! i)) ds)" by simp
  with p i q show ?thesis by blast
qed

lemma build_choice_question_of_pick:
  assumes "pick_indices tds used k g = (Inr (Some (c, ds)), used', g2)"
  shows "\<exists>q. fst (build_choice_question text_of prompt tds used k g) = Inr (Some q)"
proof -
  let ?xs = "text_of (tds ! c) # map (\<lambda>i. text_of (tds ! i)) ds"
  obtain opts g3 where s: "shuffle ?xs g2 = (opts, g3)" by force
  with shuffle_mset [of ?xs g2] have "mset opts = mset ?xs" by simp
  then have "set opts = set ?xs" by (rule mset_eq_setD)
  then have "text_of (tds ! c) \<in> set opts" by simp
  from index_finds [OF this] obtain n where "index opts (text_of (tds ! c)) = Inr n" by blast
  with assms s show ?thesis by (simp add: build_choice_question_def)
qed

lemma build_choice_question_None_iff:
  assumes "1 \<le> k"
  shows "(fst (build_choice_question text_of prompt tds used k g) = Inr None) =
           (int (length (available_indices tds used)) < k)"
proof
  assume "fst (build_choice_question text_of prompt tds used k g) = Inr None"
  then obtain u g' where "build_choice_question text_of prompt tds used k g = (Inr None, u, g')"
    by (metis prod.collapse)
  from pick_indices_NoneD [OF build_choice_question_NoneD [OF this]]
  show "int (length (available_indices tds used)) < k" by simp
next
  assume "int (length (available_indices tds used)) < k"
  from pick_indices_short [OF this, of g]
  show "fst (build_choice_question text_of prompt tds used k g) = Inr None"
    by (simp add: build_choice_question_def)
qed

lemma build_choice_question_enough:
  assumes "1 \<le> k" "k \<le> int (length (available_indices tds used))"
  shows "\<exists>q. fst (build_choice_question text_of prompt tds used k g) = Inr (Some q)"
proof -
  from pick_indices_enough [OF assms, of g] obtain c ds g'
    where "pick_indices tds used k g = (Inr (Some (c, ds)), insert c used, g')" by blast
  then show ?thesis by (rule build_choice_question_of_pick)
qed

lemma build_choice_question_label:
  assumes "build_choice_question text_of prompt tds used k g = (Inr (Some (q, opts, label)), used', g')"
  shows "\<exists>c n. c \<in> set (available_indices tds used) \<and> used' = insert c used \<and>
           q = prompt (tds ! c) \<and> int (length opts) = k \<and>
           1 \<le> n \<and> int n \<le> k \<and> label = str n \<and> opts ! (n - 1) = text_of (tds ! c)"
proof -
  from build_choice_question_SomeD [OF assms] obtain c ds g2 n where
      p: "pick_indices tds used k g = (Inr (Some (c, ds)), used', g2)"
    and q: "q = prompt (tds ! c)"
    and m: "mset opts = mset (text_of (tds ! c) # map (\<lambda>i. text_of (tds ! i)) ds)"
    and i: "index opts (text_of (tds ! c)) = Inr n" and l: "label = str (n + 1)"
    by blast
  from pick_indices_SomeD [OF p] have c: "c \<in> set (available_indices tds used)"
    and u: "used' = insert c used" and len: "int (length ds) = k - 1" by simp_all
  from m have "length opts = length (text_of (tds ! c) # map (\<lambda>i. text_of (tds ! i)) ds)"
    by (rule mset_eq_length)
  with len have lo: "int (length opts) = k" by simp
  from index_Inr [OF i] have "n < length opts" "opts ! n = text_of (tds ! c)" by simp_all
  with lo have "1 \<le> n + 1 \<and> int (n + 1) \<le> k \<and> opts ! (n + 1 - 1) = text_of (tds ! c)" by simp
  with c u q lo l show ?thesis by blast
qed

section \<open>The True/False generator: proofs\<close>

lemma generate_tf_question_NoneD:
  "generate_tf_question tds used g = (Inr None, used', g') \<Longrightarrow>
     used' = used \<and> g' = g \<and> available_indices tds used = []"
  by (auto simp: generate_tf_question_def Let_def split: if_splits sum.splits prod.splits)

lemma generate_tf_question_SomeD:
  assumes "generate_tf_question tds used g = (Inr (Some (q, opts, label)), used', g')"
  shows "\<exists>is_true g1 c g2. choice [True, False] g = Inr (is_true, g1) \<and>
           choice (available_indices tds used) g1 = Inr (c, g2) \<and>
           used' = insert c used \<and> opts = [''True'', ''False''] \<and>
           (if is_true
            then q = tf_prompt (term_of (tds ! c)) (definition_of (tds ! c)) \<and> label = ''1''
            else (\<exists>w g3. choice (filter (\<lambda>i. i \<noteq> c) (available_indices tds used)) g2 = Inr (w, g3) \<and>
                    q = tf_prompt (term_of (tds ! c)) (definition_of (tds ! w)) \<and> label = ''2''))"
  using assms
  by (auto simp: generate_tf_question_def Let_def split: if_splits sum.splits prod.splits)

lemma generate_tf_question_single_false:
  assumes "available_indices tds used = [c]" "choice [True, False] g = Inr (False, g1)"
  shows "fst (generate_tf_question tds used g) = Inl IndexError"
proof -
  from choice_nonempty [of "[c]" g1] obtain x g2 where "choice [c] g1 = Inr (x, g2)" "x = c"
    by auto
  with assms show ?thesis by (simp add: generate_tf_question_def choice_Nil Let_def)
qed

lemma generate_tf_question_produced:
  assumes "available_indices tds used \<noteq> []"
      and "choice [True, False] g = Inr (is_true, g1)"
      and "is_true \<or> 2 \<le> length (available_indices tds used)"
  shows "\<exists>q. fst (generate_tf_question tds used g) = Inr (Some q)"
proof -
  let ?av = "available_indices tds used"
  from choice_nonempty [OF assms(1), of g1] obtain c g2
    where c: "choice ?av g1 = Inr (c, g2)" and cin: "c \<in> set ?av" by blast
  show ?thesis
  proof (cases is_true)
    case True
    with assms c show ?thesis by (simp add: generate_tf_question_def Let_def)
  next
    case False
    with assms have "2 \<le> length ?av" by simp
    moreover have "length (filter (\<lambda>i. i \<noteq> c) ?av) = length ?av - 1"
      using distinct_available_indices cin by (rule length_filter_neq)
    ultimately have "filter (\<lambda>i. i \<noteq> c) ?av \<noteq> []" by auto
    from choice_nonempty [OF this, of g2] obtain w g3
      where "choice (filter (\<lambda>i. i \<noteq> c) ?av) g2 = Inr (w, g3)" by blast
    with assms c False show ?thesis by (simp add: generate_tf_question_def Let_def)
  qed
qed

section \<open>Decimal numerals: proofs\<close>

lemma str_nonempty: "str n \<noteq> []"
  by (subst str.simps) simp

lemma digit_char_inj:
  assumes "(char_of (48 + m) :: char) = char_of (48 + n)" "(m::nat) < 10" "n < 10"
  shows "m = n"
proof -
  from assms(1) have "of_char (char_of (48 + m) :: char) = (of_char (char_of (48 + n) :: char) :: nat)"
    by simp
  then have "(48 + m) mod 256 = (48 + n) mod 256" by (simp only: of_char_of)
  with assms(2,3) show ?thesis by simp
qed

text \<open>Different numbers have different numerals, so a label names one position.\<close>

lemma str_inj: "str m = str n \<Longrightarrow> m = n"
proof (induction m arbitrary: n rule: str.induct)
  case (1 m)
  show ?case
  proof (cases "m < 10")
    case True
    then have m: "str m = [char_of (48 + m)]" by (subst str.simps) simp
    show ?thesis
    proof (cases "n < 10")
      case n: True
      then have "str n = [char_of (48 + n)]" by (subst str.simps) simp
      with m "1.prems" have "(char_of (48 + m) :: char) = char_of (48 + n)" by simp
      then show ?thesis using True n by (rule digit_char_inj)
    next
      case False
      then have "str n = str (n div 10) @ [char_of (48 + n mod 10)]" by (subst str.simps) simp
      with m "1.prems" str_nonempty [of "n div 10"] show ?thesis by (cases "str (n div 10)") auto
    qed
  next
    case False
    then have m: "str m = str (m div 10) @ [char_of (48 + m mod 10)]" by (subst str.simps) simp
    show ?thesis
    proof (cases "n < 10")
      case True
      then have "str n = [char_of (48 + n)]" by (subst str.simps) simp
      with m "1.prems" str_nonempty [of "m div 10"] show ?thesis by (cases "str (m div 10)") auto
    next
      case n: False
      then have "str n = str (n div 10) @ [char_of (48 + n mod 10)]" by (subst str.simps) simp
      with m "1.prems" have e: "str (m div 10) = str (n div 10)"
        and c: "(char_of (48 + m mod 10) :: char) = char_of (48 + n mod 10)" by simp_all
      from "1.IH" [OF False e] have d: "m div 10 = n div 10" .
      have "m mod 10 < 10" "n mod 10 < 10" by simp_all
      with c have "m mod 10 = n mod 10" by (rule digit_char_inj)
      with d show ?thesis by (metis div_mult_mod_eq)
    qed
  qed
qed

section \<open>Claims about the generators\<close>

text \<open>
  Claim C1 says that the True/False generator returns a question whenever an index is
  available, also when exactly one is, whatever the coin shows.  The code does not: with
  one index available and the coin on \<^verbatim>\<open>False\<close>, line 187 calls \<^verbatim>\<open>random.choice\<close> on an
  empty list, which raises \<^verbatim>\<open>IndexError\<close>, after line 179 has put the index into the set.
  The theorem runs the generator on a pool of one row with nothing used and the coin on
  \<^verbatim>\<open>False\<close> (the first draw is 1), and runs a whole session on that pool with preferences
  that \<^verbatim>\<open>get_user_preferences\<close> accepts (one True/False question): both raise.
\<close>

theorem tf_question_last_index_raises:
  "generate_tf_question one_pool {} [1] = (Inl IndexError, {0}, []) \<and>
   accepted_preferences (length one_pool)
     \<lparr>def_questions = 0, def_choices = 4, term_questions = 0, term_choices = 4, tf_questions = 1\<rparr> \<and>
   run_test one_pool
     \<lparr>def_questions = 0, def_choices = 4, term_questions = 0, term_choices = 4, tf_questions = 1\<rparr>
     [1] [''1''] = ([], Inl IndexError)"
  by code_simp

text \<open>
  The general form: with exactly one index available and the coin on \<^verbatim>\<open>False\<close> the
  generator raises; with the coin on \<^verbatim>\<open>True\<close>, or with two or more indices available, it
  returns a question (\<open>generate_tf_question_produced\<close> above).
\<close>

lemma generate_tf_question_last_index:
  assumes "length (available_indices tds used) = 1" "choice [True, False] g = Inr (False, g1)"
  shows "fst (generate_tf_question tds used g) = Inl IndexError"
proof -
  from assms(1) obtain c where "available_indices tds used = [c]"
    by (cases "available_indices tds used") auto
  then show ?thesis using assms(2) by (rule generate_tf_question_single_false)
qed

text \<open>
  The numbers of choices the generators are called with: \<^verbatim>\<open>get_user_preferences\<close> asks
  again unless a block that has questions has between 2 and \<open>max_possible\<close> choices
  (lines 58 and 74), and a block without questions never calls its generator.
\<close>

lemma accepted_choices_in_range:
  assumes "accepted_preferences max_possible p"
  shows "(0 < def_questions p \<longrightarrow> 2 \<le> def_choices p \<and> def_choices p \<le> int max_possible) \<and>
         (0 < term_questions p \<longrightarrow> 2 \<le> term_choices p \<and> term_choices p \<le> int max_possible)"
  using assms by (simp add: accepted_preferences_def split: if_splits)

lemma question_block_without_questions: "question_block generate (nat 0) s = ([], Inr s)"
  by simp

text \<open>
  Claim C2.  For every pool, set of used indices and requested number of choices \<open>k\<close>,
  the definition generator and the term generator return \<^verbatim>\<open>None\<close> if and only if fewer
  than \<open>k\<close> indices are available, and when at least \<open>k\<close> are available they return a
  question: they neither fail nor raise.  A requested number of choices is at least 2
  (the specification's \<open>k \<ge> 2\<close>, enforced at lines 58 and 74); the theorem needs no more
  than \<open>k \<ge> 1\<close>.
\<close>

theorem choice_generators_none_iff_insufficient:
  assumes "1 \<le> k"
  shows "(fst (generate_definition_question tds used k g) = Inr None) =
           (int (length (available_indices tds used)) < k) \<and>
         (fst (generate_term_question tds used k g) = Inr None) =
           (int (length (available_indices tds used)) < k) \<and>
         (k \<le> int (length (available_indices tds used)) \<longrightarrow>
            (\<exists>q. fst (generate_definition_question tds used k g) = Inr (Some q)) \<and>
            (\<exists>q. fst (generate_term_question tds used k g) = Inr (Some q)))"
proof -
  have "(fst (generate_definition_question tds used k g) = Inr None) =
          (int (length (available_indices tds used)) < k)"
    unfolding generate_definition_question_eq using assms by (rule build_choice_question_None_iff)
  moreover have "(fst (generate_term_question tds used k g) = Inr None) =
          (int (length (available_indices tds used)) < k)"
    unfolding generate_term_question_eq using assms by (rule build_choice_question_None_iff)
  moreover have "\<exists>q. fst (generate_definition_question tds used k g) = Inr (Some q)"
    if "k \<le> int (length (available_indices tds used))"
    unfolding generate_definition_question_eq using assms that by (rule build_choice_question_enough)
  moreover have "\<exists>q. fst (generate_term_question tds used k g) = Inr (Some q)"
    if "k \<le> int (length (available_indices tds used))"
    unfolding generate_term_question_eq using assms that by (rule build_choice_question_enough)
  ultimately show ?thesis by blast
qed

theorem choice_generators_none_iff_insufficient_witness:
  "(1::int) \<le> 2 \<and> 2 \<le> int (length (available_indices net_pool {1, 3})) \<and>
   (\<exists>q. fst (generate_definition_question net_pool {1, 3} 2 [1, 0, 0]) = Inr (Some q)) \<and>
   (\<exists>q. fst (generate_term_question net_pool {1, 3} 2 [1, 0, 0]) = Inr (Some q)) \<and>
   (1::int) \<le> 3 \<and> int (length (available_indices net_pool {1, 3})) < 3 \<and>
   fst (generate_definition_question net_pool {1, 3} 3 [1, 0, 0]) = Inr None \<and>
   fst (generate_term_question net_pool {1, 3} 3 [1, 0, 0]) = Inr None"
proof -
  have a: "int (length (available_indices net_pool {1, 3})) = 2" by code_simp
  have h2: "(1::int) \<le> 2" and h3: "(1::int) \<le> 3" by simp_all
  from choice_generators_none_iff_insufficient [OF h2, of net_pool "{1, 3}" "[1, 0, 0]"]
       choice_generators_none_iff_insufficient [OF h3, of net_pool "{1, 3}" "[1, 0, 0]"] a
  show ?thesis by simp
qed

text \<open>
  A remark on the bound \<open>k \<ge> 1\<close>: for \<open>k = 0\<close>, a number of choices that no run passes
  to the generators, \<^verbatim>\<open>random.sample\<close> would be asked for \<open>-1\<close> elements and raise
  \<^verbatim>\<open>ValueError\<close>.
\<close>

lemma choice_generators_at_zero_choices:
  "fst (generate_definition_question net_pool {} 0 []) = Inl ValueError \<and>
   fst (generate_term_question net_pool {} 0 []) = Inl ValueError"
  by code_simp

text \<open>
  Claim C3.  When a choice generator returns a question for \<open>k\<close> choices, there are \<open>k\<close>
  options, the label is the decimal numeral of a position \<open>n\<close> with \<open>1 \<le> n \<le> k\<close> (and of
  no other number), and the option at position \<open>n\<close>, counted from 1, is the text of the
  correct row: its definition for a definition question, its term for a term question.
  The correct row is the one the prompt is about, whose index the call adds to the set.
  Nothing is assumed about the texts of the pool, so rows with equal texts are covered.
\<close>

theorem choice_label_locates_correct_text:
  "(generate_definition_question tds used k g = (Inr (Some (q, opts, label)), used', g') \<longrightarrow>
      (\<exists>c n. c \<in> set (available_indices tds used) \<and> used' = insert c used \<and>
             q = definition_prompt (tds ! c) \<and> int (length opts) = k \<and>
             1 \<le> n \<and> int n \<le> k \<and> label = str n \<and> (\<forall>m. label = str m \<longrightarrow> m = n) \<and>
             opts ! (n - 1) = definition_of (tds ! c))) \<and>
   (generate_term_question tds used k g = (Inr (Some (q, opts, label)), used', g') \<longrightarrow>
      (\<exists>c n. c \<in> set (available_indices tds used) \<and> used' = insert c used \<and>
             q = term_prompt (tds ! c) \<and> int (length opts) = k \<and>
             1 \<le> n \<and> int n \<le> k \<and> label = str n \<and> (\<forall>m. label = str m \<longrightarrow> m = n) \<and>
             opts ! (n - 1) = term_of (tds ! c)))"
proof -
  have "\<exists>c n. c \<in> set (available_indices tds used) \<and> used' = insert c used \<and>
             q = prompt (tds ! c) \<and> int (length opts) = k \<and>
             1 \<le> n \<and> int n \<le> k \<and> label = str n \<and> (\<forall>m. label = str m \<longrightarrow> m = n) \<and>
             opts ! (n - 1) = text_of (tds ! c)"
    if "build_choice_question text_of prompt tds used k g = (Inr (Some (q, opts, label)), used', g')"
    for text_of prompt
  proof -
    from build_choice_question_label [OF that] obtain c n where
      *: "c \<in> set (available_indices tds used)" "used' = insert c used" "q = prompt (tds ! c)"
         "int (length opts) = k" "1 \<le> n" "int n \<le> k" "label = str n"
         "opts ! (n - 1) = text_of (tds ! c)"
      by blast
    from \<open>label = str n\<close> have "\<forall>m. label = str m \<longrightarrow> m = n" by (auto dest: str_inj)
    with * show ?thesis by blast
  qed
  then show ?thesis
    unfolding generate_definition_question_eq generate_term_question_eq by blast
qed

theorem choice_label_locates_correct_text_witness:
  "generate_definition_question twin_pool {} 3 [1, 0, 0, 0, 0] =
     (Inr (Some (definition_prompt (twin_pool ! 1), [''large'', ''small'', ''large''], ''1'')), {1}, []) \<and>
   (\<exists>c n. c \<in> set (available_indices twin_pool {}) \<and> {1} = insert c {} \<and>
      definition_prompt (twin_pool ! 1) = definition_prompt (twin_pool ! c) \<and>
      int (length [''large'', ''small'', ''large'']) = 3 \<and> 1 \<le> n \<and> int n \<le> 3 \<and>
      ''1'' = str n \<and> (\<forall>m. ''1'' = str m \<longrightarrow> m = n) \<and>
      [''large'', ''small'', ''large''] ! (n - 1) = definition_of (twin_pool ! c)) \<and>
   generate_term_question twin_pool {} 3 [1, 0, 0, 0, 0] =
     (Inr (Some (term_prompt (twin_pool ! 1), [''big'', ''tiny'', ''huge''], ''3'')), {1}, []) \<and>
   (\<exists>c n. c \<in> set (available_indices twin_pool {}) \<and> {1} = insert c {} \<and>
      term_prompt (twin_pool ! 1) = term_prompt (twin_pool ! c) \<and>
      int (length [''big'', ''tiny'', ''huge'']) = 3 \<and> 1 \<le> n \<and> int n \<le> 3 \<and>
      ''3'' = str n \<and> (\<forall>m. ''3'' = str m \<longrightarrow> m = n) \<and>
      [''big'', ''tiny'', ''huge''] ! (n - 1) = term_of (twin_pool ! c))"
proof -
  have d: "generate_definition_question twin_pool {} 3 [1, 0, 0, 0, 0] =
     (Inr (Some (definition_prompt (twin_pool ! 1), [''large'', ''small'', ''large''], ''1'')), {1}, [])"
    by code_simp
  have t: "generate_term_question twin_pool {} 3 [1, 0, 0, 0, 0] =
     (Inr (Some (term_prompt (twin_pool ! 1), [''big'', ''tiny'', ''huge''], ''3'')), {1}, [])"
    by code_simp
  from choice_label_locates_correct_text
         [of twin_pool "{}" 3 "[1, 0, 0, 0, 0]" "definition_prompt (twin_pool ! 1)"
             "[''large'', ''small'', ''large'']" "''1''" "{1}" "[]"] d
  have "\<exists>c n. c \<in> set (available_indices twin_pool {}) \<and> {1} = insert c {} \<and>
      definition_prompt (twin_pool ! 1) = definition_prompt (twin_pool ! c) \<and>
      int (length [''large'', ''small'', ''large'']) = 3 \<and> 1 \<le> n \<and> int n \<le> 3 \<and>
      ''1'' = str n \<and> (\<forall>m. ''1'' = str m \<longrightarrow> m = n) \<and>
      [''large'', ''small'', ''large''] ! (n - 1) = definition_of (twin_pool ! c)"
    by blast
  moreover
  from choice_label_locates_correct_text
         [of twin_pool "{}" 3 "[1, 0, 0, 0, 0]" "term_prompt (twin_pool ! 1)"
             "[''big'', ''tiny'', ''huge'']" "''3''" "{1}" "[]"] t
  have "\<exists>c n. c \<in> set (available_indices twin_pool {}) \<and> {1} = insert c {} \<and>
      term_prompt (twin_pool ! 1) = term_prompt (twin_pool ! c) \<and>
      int (length [''big'', ''tiny'', ''huge'']) = 3 \<and> 1 \<le> n \<and> int n \<le> 3 \<and>
      ''3'' = str n \<and> (\<forall>m. ''3'' = str m \<longrightarrow> m = n) \<and>
      [''big'', ''tiny'', ''huge''] ! (n - 1) = term_of (twin_pool ! c)"
    by blast
  ultimately show ?thesis using d t by blast
qed

text \<open>
  Claim C5.  For every True/False question the generator returns, the options are
  \<^verbatim>\<open>['True', 'False']\<close>, and for the row \<open>c\<close> whose index the call adds to the set: if the
  coin (the first draw of the call) shows \<^verbatim>\<open>True\<close>, the prompt pairs the term of row \<open>c\<close>
  with the definition of row \<open>c\<close> and the label is \<^verbatim>\<open>1\<close>; if it shows \<^verbatim>\<open>False\<close>, the prompt
  pairs the term of row \<open>c\<close> with the definition of a row at another available index
  and the label is \<^verbatim>\<open>2\<close>.
\<close>

theorem tf_question_polarity:
  assumes "generate_tf_question tds used g = (Inr (Some (q, opts, label)), used', g')"
      and "choice [True, False] g = Inr (is_true, g1)"
  shows "opts = [''True'', ''False''] \<and>
         (\<exists>c \<in> set (available_indices tds used). used' = insert c used \<and>
            (if is_true
             then q = tf_prompt (term_of (tds ! c)) (definition_of (tds ! c)) \<and> label = ''1''
             else (\<exists>w \<in> set (available_indices tds used). w \<noteq> c \<and>
                     q = tf_prompt (term_of (tds ! c)) (definition_of (tds ! w)) \<and> label = ''2'')))"
proof -
  let ?av = "available_indices tds used"
  from generate_tf_question_SomeD [OF assms(1)] assms(2) obtain c g2 where
      c: "choice ?av g1 = Inr (c, g2)" and u: "used' = insert c used"
    and o: "opts = [''True'', ''False'']"
    and p: "if is_true
            then q = tf_prompt (term_of (tds ! c)) (definition_of (tds ! c)) \<and> label = ''1''
            else (\<exists>w g3. choice (filter (\<lambda>i. i \<noteq> c) ?av) g2 = Inr (w, g3) \<and>
                    q = tf_prompt (term_of (tds ! c)) (definition_of (tds ! w)) \<and> label = ''2'')"
    by auto
  from choice_Inr [OF c] have cin: "c \<in> set ?av" .
  show ?thesis
  proof (cases is_true)
    case True
    with p u o cin show ?thesis by auto
  next
    case False
    with p obtain w g3 where w: "choice (filter (\<lambda>i. i \<noteq> c) ?av) g2 = Inr (w, g3)"
      and q: "q = tf_prompt (term_of (tds ! c)) (definition_of (tds ! w))" "label = ''2''"
      by auto
    from choice_Inr [OF w] have "w \<in> set ?av" "w \<noteq> c" by simp_all
    with False q u o cin show ?thesis by auto
  qed
qed

theorem tf_question_polarity_witness:
  "generate_tf_question net_pool {1} [0, 1] =
     (Inr (Some (tf_prompt ''TCP'' ''Transmission Control Protocol'', [''True'', ''False''], ''1'')),
      {2, 1}, []) \<and>
   choice [True, False] [0, 1] = Inr (True, [1]) \<and>
   (\<exists>c \<in> set (available_indices net_pool {1}). {2, 1} = insert c {1} \<and>
      tf_prompt ''TCP'' ''Transmission Control Protocol'' =
        tf_prompt (term_of (net_pool ! c)) (definition_of (net_pool ! c)) \<and> ''1'' = ''1'') \<and>
   generate_tf_question net_pool {1} [1, 1, 1] =
     (Inr (Some (tf_prompt ''TCP'' ''Internet Protocol'', [''True'', ''False''], ''2'')), {2, 1}, []) \<and>
   choice [True, False] [1, 1, 1] = Inr (False, [1, 1]) \<and>
   (\<exists>c \<in> set (available_indices net_pool {1}). {2, 1} = insert c {1} \<and>
      (\<exists>w \<in> set (available_indices net_pool {1}). w \<noteq> c \<and>
         tf_prompt ''TCP'' ''Internet Protocol'' =
           tf_prompt (term_of (net_pool ! c)) (definition_of (net_pool ! w)) \<and> ''2'' = ''2''))"
proof -
  have t: "generate_tf_question net_pool {1} [0, 1] =
     (Inr (Some (tf_prompt ''TCP'' ''Transmission Control Protocol'', [''True'', ''False''], ''1'')),
      {2, 1}, [])" by code_simp
  have tc: "choice [True, False] [0, 1] = Inr (True, [1])" by code_simp
  have f: "generate_tf_question net_pool {1} [1, 1, 1] =
     (Inr (Some (tf_prompt ''TCP'' ''Internet Protocol'', [''True'', ''False''], ''2'')), {2, 1}, [])"
    by code_simp
  have fc: "choice [True, False] [1, 1, 1] = Inr (False, [1, 1])" by code_simp
  from tf_question_polarity [OF t tc] tf_question_polarity [OF f fc] t tc f fc
  show ?thesis by simp
qed

text \<open>
  Claim C6.  When a choice generator returns a question for \<open>k\<close> choices, the set it
  leaves is the set it was given plus the one correct index \<open>c\<close>, which was available
  (hence not in the set before); the \<open>k - 1\<close> distractor indices \<open>ds\<close> are pairwise
  distinct, are available indices other than \<open>c\<close>, and none of them is in the set
  afterwards.  Here \<open>c\<close> and \<open>ds\<close> are the indices drawn at lines 116 and 121 (145 and
  150), as \<open>pick_indices\<close> returns them: the prompt is about row \<open>c\<close> and the options are
  the texts of the rows \<open>c\<close> and \<open>ds\<close> in some order.
\<close>

theorem choice_generator_uses_up_correct_index_only:
  "(generate_definition_question tds used k g = (Inr (Some (q, opts, label)), used', g') \<longrightarrow>
      (\<exists>c ds g2. pick_indices tds used k g = (Inr (Some (c, ds)), used', g2) \<and>
         c \<in> set (available_indices tds used) \<and> c \<notin> used \<and> used' = insert c used \<and>
         int (length ds) = k - 1 \<and> distinct ds \<and>
         set ds \<subseteq> set (available_indices tds used) - {c} \<and> set ds \<inter> used' = {} \<and>
         q = definition_prompt (tds ! c) \<and>
         mset opts = mset (definition_of (tds ! c) # map (\<lambda>i. definition_of (tds ! i)) ds))) \<and>
   (generate_term_question tds used k g = (Inr (Some (q, opts, label)), used', g') \<longrightarrow>
      (\<exists>c ds g2. pick_indices tds used k g = (Inr (Some (c, ds)), used', g2) \<and>
         c \<in> set (available_indices tds used) \<and> c \<notin> used \<and> used' = insert c used \<and>
         int (length ds) = k - 1 \<and> distinct ds \<and>
         set ds \<subseteq> set (available_indices tds used) - {c} \<and> set ds \<inter> used' = {} \<and>
         q = term_prompt (tds ! c) \<and>
         mset opts = mset (term_of (tds ! c) # map (\<lambda>i. term_of (tds ! i)) ds)))"
proof -
  have "\<exists>c ds g2. pick_indices tds used k g = (Inr (Some (c, ds)), used', g2) \<and>
         c \<in> set (available_indices tds used) \<and> c \<notin> used \<and> used' = insert c used \<and>
         int (length ds) = k - 1 \<and> distinct ds \<and>
         set ds \<subseteq> set (available_indices tds used) - {c} \<and> set ds \<inter> used' = {} \<and>
         q = prompt (tds ! c) \<and>
         mset opts = mset (text_of (tds ! c) # map (\<lambda>i. text_of (tds ! i)) ds)"
    if "build_choice_question text_of prompt tds used k g = (Inr (Some (q, opts, label)), used', g')"
    for text_of prompt
  proof -
    from build_choice_question_SomeD [OF that] obtain c ds g2 where
        p: "pick_indices tds used k g = (Inr (Some (c, ds)), used', g2)"
      and q: "q = prompt (tds ! c)"
      and m: "mset opts = mset (text_of (tds ! c) # map (\<lambda>i. text_of (tds ! i)) ds)"
      by blast
    from pick_indices_SomeD [OF p] have
        c: "c \<in> set (available_indices tds used)" and u: "used' = insert c used"
      and d: "distinct ds" and s: "set ds \<subseteq> set (available_indices tds used) - {c}"
      and l: "int (length ds) = k - 1" by simp_all
    from c have cn: "c \<notin> used" by (simp add: set_available_indices)
    from s u have "set ds \<inter> used' = {}" by (auto simp: set_available_indices)
    with p q m c u d s l cn show ?thesis by blast
  qed
  then show ?thesis
    unfolding generate_definition_question_eq generate_term_question_eq by blast
qed

theorem choice_generator_uses_up_correct_index_only_witness:
  "generate_definition_question twin_pool {} 3 [1, 0, 0, 0, 0] =
     (Inr (Some (definition_prompt (twin_pool ! 1), [''large'', ''small'', ''large''], ''1'')), {1}, []) \<and>
   (\<exists>c ds g2. pick_indices twin_pool {} 3 [1, 0, 0, 0, 0] = (Inr (Some (c, ds)), {1}, g2) \<and>
      c \<in> set (available_indices twin_pool {}) \<and> c \<notin> {} \<and> {1} = insert c {} \<and>
      int (length ds) = 3 - 1 \<and> distinct ds \<and>
      set ds \<subseteq> set (available_indices twin_pool {}) - {c} \<and> set ds \<inter> {1} = {} \<and>
      definition_prompt (twin_pool ! 1) = definition_prompt (twin_pool ! c) \<and>
      mset [''large'', ''small'', ''large''] =
        mset (definition_of (twin_pool ! c) # map (\<lambda>i. definition_of (twin_pool ! i)) ds)) \<and>
   generate_term_question twin_pool {} 3 [1, 0, 0, 0, 0] =
     (Inr (Some (term_prompt (twin_pool ! 1), [''big'', ''tiny'', ''huge''], ''3'')), {1}, []) \<and>
   (\<exists>c ds g2. pick_indices twin_pool {} 3 [1, 0, 0, 0, 0] = (Inr (Some (c, ds)), {1}, g2) \<and>
      c \<in> set (available_indices twin_pool {}) \<and> c \<notin> {} \<and> {1} = insert c {} \<and>
      int (length ds) = 3 - 1 \<and> distinct ds \<and>
      set ds \<subseteq> set (available_indices twin_pool {}) - {c} \<and> set ds \<inter> {1} = {} \<and>
      term_prompt (twin_pool ! 1) = term_prompt (twin_pool ! c) \<and>
      mset [''big'', ''tiny'', ''huge''] =
        mset (term_of (twin_pool ! c) # map (\<lambda>i. term_of (twin_pool ! i)) ds)) \<and>
   pick_indices twin_pool {} 3 [1, 0, 0, 0, 0] = (Inr (Some (1, [0, 2])), {1}, [0, 0])"
proof -
  have d: "generate_definition_question twin_pool {} 3 [1, 0, 0, 0, 0] =
     (Inr (Some (definition_prompt (twin_pool ! 1), [''large'', ''small'', ''large''], ''1'')), {1}, [])"
    by code_simp
  have t: "generate_term_question twin_pool {} 3 [1, 0, 0, 0, 0] =
     (Inr (Some (term_prompt (twin_pool ! 1), [''big'', ''tiny'', ''huge''], ''3'')), {1}, [])"
    by code_simp
  have p: "pick_indices twin_pool {} 3 [1, 0, 0, 0, 0] = (Inr (Some (1, [0, 2])), {1}, [0, 0])"
    by code_simp
  from choice_generator_uses_up_correct_index_only
         [of twin_pool "{}" 3 "[1, 0, 0, 0, 0]" "definition_prompt (twin_pool ! 1)"
             "[''large'', ''small'', ''large'']" "''1''" "{1}" "[]"] d
  have "\<exists>c ds g2. pick_indices twin_pool {} 3 [1, 0, 0, 0, 0] = (Inr (Some (c, ds)), {1}, g2) \<and>
      c \<in> set (available_indices twin_pool {}) \<and> c \<notin> {} \<and> {1} = insert c {} \<and>
      int (length ds) = 3 - 1 \<and> distinct ds \<and>
      set ds \<subseteq> set (available_indices twin_pool {}) - {c} \<and> set ds \<inter> {1} = {} \<and>
      definition_prompt (twin_pool ! 1) = definition_prompt (twin_pool ! c) \<and>
      mset [''large'', ''small'', ''large''] =
        mset (definition_of (twin_pool ! c) # map (\<lambda>i. definition_of (twin_pool ! i)) ds)"
    by blast
  moreover
  from choice_generator_uses_up_correct_index_only
         [of twin_pool "{}" 3 "[1, 0, 0, 0, 0]" "term_prompt (twin_pool ! 1)"
             "[''big'', ''tiny'', ''huge'']" "''3''" "{1}" "[]"] t
  have "\<exists>c ds g2. pick_indices twin_pool {} 3 [1, 0, 0, 0, 0] = (Inr (Some (c, ds)), {1}, g2) \<and>
      c \<in> set (available_indices twin_pool {}) \<and> c \<notin> {} \<and> {1} = insert c {} \<and>
      int (length ds) = 3 - 1 \<and> distinct ds \<and>
      set ds \<subseteq> set (available_indices twin_pool {}) - {c} \<and> set ds \<inter> {1} = {} \<and>
      term_prompt (twin_pool ! 1) = term_prompt (twin_pool ! c) \<and>
      mset [''big'', ''tiny'', ''huge''] =
        mset (term_of (twin_pool ! c) # map (\<lambda>i. term_of (twin_pool ! i)) ds)"
    by blast
  ultimately show ?thesis using d t p by blast
qed

text \<open>
  Claim C10.  Whenever one of the three generators returns \<^verbatim>\<open>None\<close>, the set of used
  indices is the one that was passed in: the check for enough available indices comes
  before any index is added.
\<close>

theorem failed_generation_keeps_used_indices:
  "(generate_definition_question tds used k g = (Inr None, used', g') \<longrightarrow> used' = used) \<and>
   (generate_term_question tds used k g = (Inr None, used', g') \<longrightarrow> used' = used) \<and>
   (generate_tf_question tds used g = (Inr None, used', g') \<longrightarrow> used' = used)"
  unfolding generate_definition_question_eq generate_term_question_eq
  by (auto dest!: build_choice_question_NoneD pick_indices_NoneD generate_tf_question_NoneD)

theorem failed_generation_keeps_used_indices_witness:
  "generate_definition_question net_pool {0, 2, 3} 2 [3, 1] = (Inr None, {0, 2, 3}, [3, 1]) \<and>
   generate_term_question net_pool {0, 2, 3} 2 [3, 1] = (Inr None, {0, 2, 3}, [3, 1]) \<and>
   generate_tf_question net_pool {0, 1, 2, 3} [3, 1] = (Inr None, {0, 1, 2, 3}, [3, 1]) \<and>
   {0, 2, 3} = {0, 2, 3 :: nat} \<and> {0, 1, 2, 3} = {0, 1, 2, 3 :: nat}"
proof -
  have d: "generate_definition_question net_pool {0, 2, 3} 2 [3, 1] = (Inr None, {0, 2, 3}, [3, 1])"
    by code_simp
  have t: "generate_term_question net_pool {0, 2, 3} 2 [3, 1] = (Inr None, {0, 2, 3}, [3, 1])"
    by code_simp
  have f: "generate_tf_question net_pool {0, 1, 2, 3} [3, 1] = (Inr None, {0, 1, 2, 3}, [3, 1])"
    by code_simp
  from failed_generation_keeps_used_indices [of net_pool "{0, 2, 3}" 2 "[3, 1]" "{0, 2, 3}" "[3, 1]"]
       failed_generation_keeps_used_indices [of net_pool "{0, 1, 2, 3}" 2 "[3, 1]" "{0, 1, 2, 3}" "[3, 1]"]
       d t f
  show ?thesis by simp
qed

section \<open>The session: proofs\<close>

lemma ask_Answered:
  assumes "ask generate s = Answered q a s1"
  shows "\<exists>used1 g1. generate (used_indices s) (random_state s) = (Inr (Some q), used1, g1) \<and>
           used_indices s1 = used1 \<and>
           total_questions s1 = total_questions s + 1 \<and>
           score s1 = (if a = snd (snd q) then score s + 1 else score s)"
  using assms
  by (auto simp: ask_def split: prod.splits sum.splits option.splits)

lemma ask_Stopped:
  assumes "ask generate s = Stopped s1"
  shows "\<exists>used1 g1. generate (used_indices s) (random_state s) = (Inr None, used1, g1) \<and>
           s1 = s\<lparr>used_indices := used1, random_state := g1\<rparr>"
  using assms
  by (auto simp: ask_def split: prod.splits sum.splits option.splits)

lemma end_state_Nil: "end_state s [] = s"
  by (simp add: end_state_def)

lemma end_state_Cons: "end_state s (e # es) = end_state (snd (snd e)) es"
  by (simp add: end_state_def)

lemma end_state_append: "end_state s (xs @ ys) = end_state (end_state s xs) ys"
  by (induction xs arbitrary: s) (simp_all add: end_state_Nil end_state_Cons)

lemma linked_append:
  "linked P s (xs @ ys) = (linked P s xs \<and> linked P (end_state s xs) ys)"
  by (induction xs arbitrary: s) (simp_all add: end_state_Nil end_state_Cons)

lemma linked_nth:
  assumes "linked P s es" "i < length es"
  shows "P (if i = 0 then s else snd (snd (es ! (i - 1)))) (es ! i)"
  using assms
proof (induction es arbitrary: s i)
  case Nil
  then show ?case by simp
next
  case (Cons e es)
  show ?case
  proof (cases i)
    case 0
    with Cons.prems show ?thesis by simp
  next
    case (Suc j)
    with Cons.prems have "linked P (snd (snd e)) es" "j < length es" by simp_all
    from Cons.IH [OF this] Suc show ?thesis by (cases j) simp_all
  qed
qed

lemma question_block_linked:
  assumes "sound_generator tds generate" "question_block generate n s = (events, r)"
  shows "linked (scored_step tds) s events \<and> (\<forall>s1. r = Inr s1 \<longrightarrow> s1 = end_state s events)"
  using assms(2)
proof (induction n arbitrary: s events r)
  case 0
  then show ?case by (auto simp: end_state_Nil)
next
  case (Suc n)
  show ?case
  proof (cases "ask generate s")
    case (Raised e)
    with Suc.prems show ?thesis by auto
  next
    case (Stopped s1)
    from ask_Stopped [OF this] obtain used1 g1 where
      "generate (used_indices s) (random_state s) = (Inr None, used1, g1)"
      "s1 = s\<lparr>used_indices := used1, random_state := g1\<rparr>" by blast
    with assms(1) have "s1 = s" by (auto simp: sound_generator_def)
    with Stopped Suc.prems show ?thesis by (auto simp: end_state_Nil)
  next
    case (Answered q a s1)
    obtain es r1 where b: "question_block generate n s1 = (es, r1)" by force
    with Answered Suc.prems have ev: "events = (q, a, s1) # es" and r: "r = r1" by simp_all
    from ask_Answered [OF Answered] obtain used1 g1 where
      g: "generate (used_indices s) (random_state s) = (Inr (Some q), used1, g1)"
      and u: "used_indices s1 = used1"
      and t: "total_questions s1 = total_questions s + 1"
      and sc: "score s1 = (if a = snd (snd q) then score s + 1 else score s)" by blast
    from assms(1) g have "\<exists>c \<in> set [0..<length tds]. c \<notin> used_indices s \<and>
        used1 = insert c (used_indices s) \<and> asks_about tds c q"
      unfolding sound_generator_def by blast
    with u t sc have "scored_step tds s (q, a, s1)" by (simp add: scored_step_def)
    with Suc.IH [OF b] ev r show ?thesis by (simp add: end_state_Cons)
  qed
qed

lemma asks_about_definition: "asks_about tds c (definition_prompt (tds ! c), opts, label)"
  by (simp add: asks_about_def)

lemma asks_about_term: "asks_about tds c (term_prompt (tds ! c), opts, label)"
  by (simp add: asks_about_def)

lemma asks_about_tf:
  "w < length tds \<Longrightarrow>
     asks_about tds c (tf_prompt (term_of (tds ! c)) (definition_of (tds ! w)), opts, label)"
  by (auto simp: asks_about_def)

lemma sound_build_choice_question:
  assumes about: "\<And>c opts label. asks_about tds c (prompt (tds ! c), opts, label)"
  shows "sound_generator tds (\<lambda>used. build_choice_question text_of prompt tds used k)"
proof -
  have n: "used1 = used \<and> g1 = g"
    if "build_choice_question text_of prompt tds used k g = (Inr None, used1, g1)"
    for used g used1 g1
    using pick_indices_NoneD [OF build_choice_question_NoneD [OF that]] by simp
  have s: "\<exists>c \<in> set [0..<length tds]. c \<notin> used \<and> used1 = insert c used \<and> asks_about tds c q"
    if a: "build_choice_question text_of prompt tds used k g = (Inr (Some q), used1, g1)"
    for used g used1 g1 q
  proof -
    obtain p opts label where q: "q = (p, opts, label)" by (cases q)
    from build_choice_question_label [OF a [unfolded q]] obtain c where
      "c \<in> set (available_indices tds used)" "used1 = insert c used" "p = prompt (tds ! c)"
      by blast
    then show ?thesis
      using q about by (auto simp: set_available_indices)
  qed
  from n s show ?thesis unfolding sound_generator_def by blast
qed

lemma sound_generate_definition_question:
  "sound_generator tds (\<lambda>used. generate_definition_question tds used k)"
proof -
  have "(\<lambda>used. generate_definition_question tds used k) =
          (\<lambda>used. build_choice_question definition_of definition_prompt tds used k)"
    by (intro ext) (rule generate_definition_question_eq)
  then show ?thesis
    using sound_build_choice_question [of tds definition_prompt definition_of k]
    by (simp add: asks_about_definition)
qed

lemma sound_generate_term_question:
  "sound_generator tds (\<lambda>used. generate_term_question tds used k)"
proof -
  have "(\<lambda>used. generate_term_question tds used k) =
          (\<lambda>used. build_choice_question term_of term_prompt tds used k)"
    by (intro ext) (rule generate_term_question_eq)
  then show ?thesis
    using sound_build_choice_question [of tds term_prompt term_of k]
    by (simp add: asks_about_term)
qed

lemma sound_generate_tf_question: "sound_generator tds (generate_tf_question tds)"
proof -
  have n: "used1 = used \<and> g1 = g"
    if "generate_tf_question tds used g = (Inr None, used1, g1)" for used g used1 g1
    using generate_tf_question_NoneD [OF that] by simp
  have s: "\<exists>c \<in> set [0..<length tds]. c \<notin> used \<and> used1 = insert c used \<and> asks_about tds c q"
    if a: "generate_tf_question tds used g = (Inr (Some q), used1, g1)" for used g used1 g1 q
  proof -
    obtain p opts label where q: "q = (p, opts, label)" by (cases q)
    let ?av = "available_indices tds used"
    from generate_tf_question_SomeD [OF a [unfolded q]] obtain is_true g0 c g2 where
        c: "choice ?av g0 = Inr (c, g2)" and u: "used1 = insert c used"
      and p: "if is_true
              then p = tf_prompt (term_of (tds ! c)) (definition_of (tds ! c)) \<and> label = ''1''
              else (\<exists>w g3. choice (filter (\<lambda>i. i \<noteq> c) ?av) g2 = Inr (w, g3) \<and>
                      p = tf_prompt (term_of (tds ! c)) (definition_of (tds ! w)) \<and> label = ''2'')"
      by blast
    from choice_Inr [OF c] have cin: "c < length tds" "c \<notin> used"
      by (simp_all add: set_available_indices)
    have "asks_about tds c q"
    proof (cases is_true)
      case True
      with p q cin show ?thesis by (simp add: asks_about_tf)
    next
      case False
      with p obtain w g3 where w: "choice (filter (\<lambda>i. i \<noteq> c) ?av) g2 = Inr (w, g3)"
        and pw: "p = tf_prompt (term_of (tds ! c)) (definition_of (tds ! w))" by auto
      from choice_Inr [OF w] have "w < length tds" by (simp add: set_available_indices)
      with pw q show ?thesis by (simp add: asks_about_tf)
    qed
    with cin u show ?thesis by auto
  qed
  from n s show ?thesis unfolding sound_generator_def by blast
qed

lemma run_test_linked:
  assumes "run_test tds p g inp = (events, r)"
  shows "linked (scored_step tds) (initial_state g inp) events \<and>
         (\<forall>rep. r = Inr rep \<longrightarrow> rep = final_results (end_state (initial_state g inp) events))"
proof -
  let ?s0 = "initial_state g inp"
  obtain ev1 r1 where b1:
    "question_block (\<lambda>used. generate_definition_question tds used (def_choices p))
       (nat (def_questions p)) ?s0 = (ev1, r1)" by force
  from question_block_linked [OF sound_generate_definition_question b1]
  have l1: "linked (scored_step tds) ?s0 ev1" and e1: "\<forall>s1. r1 = Inr s1 \<longrightarrow> s1 = end_state ?s0 ev1"
    by simp_all
  show ?thesis
  proof (cases r1)
    case (Inl e)
    with assms b1 l1 show ?thesis by (auto simp: run_test_def)
  next
    case s1: (Inr s1)
    with e1 have s1e: "s1 = end_state ?s0 ev1" by simp
    obtain ev2 r2 where b2:
      "question_block (\<lambda>used. generate_term_question tds used (term_choices p))
         (nat (term_questions p)) s1 = (ev2, r2)" by force
    from question_block_linked [OF sound_generate_term_question b2]
    have l2: "linked (scored_step tds) s1 ev2" and e2: "\<forall>s2. r2 = Inr s2 \<longrightarrow> s2 = end_state s1 ev2"
      by simp_all
    from l1 l2 s1e have l12: "linked (scored_step tds) ?s0 (ev1 @ ev2)"
      by (simp add: linked_append)
    show ?thesis
    proof (cases r2)
      case (Inl e)
      with assms b1 b2 s1 l12 show ?thesis by (auto simp: run_test_def)
    next
      case s2: (Inr s2)
      with e2 s1e have s2e: "s2 = end_state ?s0 (ev1 @ ev2)" by (simp add: end_state_append)
      obtain ev3 r3 where b3:
        "question_block (generate_tf_question tds) (nat (tf_questions p)) s2 = (ev3, r3)" by force
      from question_block_linked [OF sound_generate_tf_question b3]
      have l3: "linked (scored_step tds) s2 ev3" and e3: "\<forall>s3. r3 = Inr s3 \<longrightarrow> s3 = end_state s2 ev3"
        by simp_all
      from l12 l3 s2e have l123: "linked (scored_step tds) ?s0 (ev1 @ ev2 @ ev3)"
        using linked_append [of "scored_step tds" ?s0 "ev1 @ ev2" ev3] by simp
      show ?thesis
      proof (cases r3)
        case (Inl e)
        with assms b1 b2 b3 s1 s2 l123 show ?thesis by (auto simp: run_test_def)
      next
        case s3: (Inr s3)
        with e3 s2e have "s3 = end_state ?s0 (ev1 @ ev2 @ ev3)"
          using end_state_append [of ?s0 "ev1 @ ev2" ev3] by simp
        with assms b1 b2 b3 s1 s2 s3 l123 show ?thesis by (auto simp: run_test_def)
      qed
    qed
  qed
qed

lemma linked_scores:
  assumes "linked (scored_step tds) s es" "0 \<le> score s" "score s \<le> total_questions s"
  shows "(\<forall>e \<in> set es. 0 \<le> score (snd (snd e)) \<and> score (snd (snd e)) \<le> total_questions (snd (snd e))) \<and>
         0 \<le> score (end_state s es) \<and> score (end_state s es) \<le> total_questions (end_state s es) \<and>
         total_questions (end_state s es) = total_questions s + int (length es)"
  using assms
proof (induction es arbitrary: s)
  case Nil
  then show ?case by (simp add: end_state_Nil)
next
  case (Cons e es)
  obtain q a s1 where e: "e = (q, a, s1)" by (cases e)
  with Cons.prems have st: "scored_step tds s (q, a, s1)" and l: "linked (scored_step tds) s1 es"
    by simp_all
  from st Cons.prems have b: "0 \<le> score s1" "score s1 \<le> total_questions s1"
    and t: "total_questions s1 = total_questions s + 1"
    by (auto simp: scored_step_def split: if_splits)
  from Cons.IH [OF l b] e b t show ?case by (simp add: end_state_Cons)
qed

lemma linked_used_grows:
  assumes "linked (scored_step tds) s es"
  shows "\<forall>e \<in> set es. used_indices s \<subseteq> used_indices (snd (snd e))"
  using assms
proof (induction es arbitrary: s)
  case Nil
  then show ?case by simp
next
  case (Cons e es)
  obtain q a s1 where e: "e = (q, a, s1)" by (cases e)
  with Cons.prems have st: "scored_step tds s (q, a, s1)" and l: "linked (scored_step tds) s1 es"
    by simp_all
  from st have "used_indices s \<subseteq> used_indices s1" by (auto simp: scored_step_def)
  with Cons.IH [OF l] e show ?case by auto
qed

lemma linked_used_mono:
  assumes "linked (scored_step tds) s es" "i \<le> j" "j < length es"
  shows "used_indices (snd (snd (es ! i))) \<subseteq> used_indices (snd (snd (es ! j)))"
  using assms
proof (induction es arbitrary: s i j)
  case Nil
  then show ?case by simp
next
  case (Cons e es)
  from Cons.prems have l: "linked (scored_step tds) (snd (snd e)) es" by simp
  show ?case
  proof (cases i)
    case 0
    show ?thesis
    proof (cases j)
      case j0: 0
      with 0 show ?thesis by simp
    next
      case (Suc j')
      with Cons.prems have "es ! j' \<in> set es" by simp
      with linked_used_grows [OF l] 0 Suc show ?thesis by simp
    qed
  next
    case (Suc i')
    with Cons.prems obtain j' where j: "j = Suc j'" "i' \<le> j'" "j' < length es"
      by (cases j) auto
    from Cons.IH [OF l j(2,3)] Suc j show ?thesis by simp
  qed
qed

lemma run_test_steps:
  assumes "run_test tds p g inp = (events, r)" "i < length events"
  shows "scored_step tds (state_before g inp events i) (events ! i)"
  using linked_nth [of "scored_step tds" "initial_state g inp" events i]
    run_test_linked [OF assms(1)] assms(2)
  by (simp add: state_before_def)

lemma run_test_scores:
  assumes "run_test tds p g inp = (events, r)"
  shows "(\<forall>e \<in> set events. 0 \<le> score (snd (snd e)) \<and>
            score (snd (snd e)) \<le> total_questions (snd (snd e))) \<and>
         0 \<le> score (end_state (initial_state g inp) events) \<and>
         score (end_state (initial_state g inp) events) \<le>
           total_questions (end_state (initial_state g inp) events) \<and>
         total_questions (end_state (initial_state g inp) events) = int (length events)"
proof -
  from run_test_linked [OF assms]
  have "linked (scored_step tds) (initial_state g inp) events" by simp
  from linked_scores [OF this] show ?thesis by (simp add: initial_state_def)
qed

lemma percentage_of_ten: "percentage_of 10 10 = 100"
  by code_simp

section \<open>Claims about the session\<close>

text \<open>
  Claim C4.  In a run of \<^verbatim>\<open>run_test\<close> the set of used indices starts empty and only grows:
  every answered question adds exactly one index of the pool, one that the set did not
  hold when the question was generated, and that index is the index of the row the
  question is about (for all three kinds of question).  So an index enters the set at
  most once, the set after an earlier question is contained in the set after a later
  one, and every index in the set after a question is in the set before each later
  question, whose correct index is taken from outside that set.
\<close>

theorem used_indices_grow_without_repeats:
  assumes "run_test tds p g inp = (events, r)"
  shows "used_indices (initial_state g inp) = {} \<and>
         (\<forall>i < length events. \<exists>c \<in> set [0..<length tds].
            c \<notin> used_indices (state_before g inp events i) \<and>
            used_indices (state_after (events ! i)) =
              insert c (used_indices (state_before g inp events i)) \<and>
            asks_about tds c (asked (events ! i))) \<and>
         (\<forall>i j. i \<le> j \<and> j < length events \<longrightarrow>
            used_indices (state_after (events ! i)) \<subseteq> used_indices (state_after (events ! j))) \<and>
         (\<forall>i j. i < j \<and> j < length events \<longrightarrow>
            used_indices (state_after (events ! i)) \<subseteq> used_indices (state_before g inp events j))"
proof -
  from run_test_linked [OF assms]
  have l: "linked (scored_step tds) (initial_state g inp) events" by simp
  have a: "\<exists>c \<in> set [0..<length tds].
            c \<notin> used_indices (state_before g inp events i) \<and>
            used_indices (state_after (events ! i)) =
              insert c (used_indices (state_before g inp events i)) \<and>
            asks_about tds c (asked (events ! i))" if i: "i < length events" for i
  proof -
    obtain q a s where e: "events ! i = (q, a, s)" by (cases "events ! i")
    from run_test_steps [OF assms i] e show ?thesis
      by (simp add: scored_step_def state_after_def asked_def)
  qed
  have b: "used_indices (state_after (events ! i)) \<subseteq> used_indices (state_after (events ! j))"
    if "i \<le> j" "j < length events" for i j
    using linked_used_mono [OF l that] by (simp add: state_after_def)
  have c: "used_indices (state_after (events ! i)) \<subseteq> used_indices (state_before g inp events j)"
    if "i < j" "j < length events" for i j
  proof -
    from that have "i \<le> j - 1" "j - 1 < length events" "j \<noteq> 0" by simp_all
    with b [of i "j - 1"] show ?thesis by (simp add: state_before_def state_after_def)
  qed
  have "used_indices (initial_state g inp) = {}" by (simp add: initial_state_def)
  with a b c show ?thesis by blast
qed

theorem used_indices_grow_without_repeats_witness:
  "run_test net_pool demo_preferences [1, 2, 3, 4, 5, 6, 7, 8, 9]
     [''1'', ''x'', '' 2 '', ''2'', ''1''] = (fst demo_run, snd demo_run) \<and>
   length (fst demo_run) = 4 \<and>
   used_indices (state_after (fst demo_run ! 0)) = {1} \<and>
   used_indices (state_after (fst demo_run ! 1)) = {3, 1} \<and>
   used_indices (state_after (fst demo_run ! 3)) = {2, 0, 3, 1} \<and>
   (\<exists>c \<in> set [0..<length net_pool].
      c \<notin> used_indices (state_after (fst demo_run ! 0)) \<and>
      used_indices (state_after (fst demo_run ! 1)) =
        insert c (used_indices (state_after (fst demo_run ! 0))) \<and>
      asks_about net_pool c (asked (fst demo_run ! 1))) \<and>
   used_indices (state_after (fst demo_run ! 1)) \<subseteq> used_indices (state_after (fst demo_run ! 3)) \<and>
   used_indices (state_after (fst demo_run ! 0)) \<subseteq> used_indices (state_after (fst demo_run ! 2))"
proof -
  let ?g = "[1, 2, 3, 4, 5, 6, 7, 8, 9 :: nat]"
  let ?inp = "[''1'', ''x'', '' 2 '', ''2'', ''1'']"
  have run: "run_test net_pool demo_preferences ?g ?inp = (fst demo_run, snd demo_run)"
    by (simp add: demo_run_def)
  have len: "length (fst demo_run) = 4" by code_simp
  have u0: "used_indices (state_after (fst demo_run ! 0)) = {1}" by code_simp
  have u1: "used_indices (state_after (fst demo_run ! 1)) = {3, 1}" by code_simp
  have u3: "used_indices (state_after (fst demo_run ! 3)) = {2, 0, 3, 1}" by code_simp
  note main = used_indices_grow_without_repeats [OF run]
  note steps = main [THEN conjunct2, THEN conjunct1, rule_format]
  note mono = main [THEN conjunct2, THEN conjunct2, THEN conjunct1, rule_format]
  note before = main [THEN conjunct2, THEN conjunct2, THEN conjunct2, rule_format]
  have b1: "state_before ?g ?inp (fst demo_run) 1 = state_after (fst demo_run ! 0)"
    and b3: "state_before ?g ?inp (fst demo_run) 3 = state_after (fst demo_run ! 2)"
    by (simp_all add: state_before_def state_after_def)
  have "1 < length (fst demo_run)" using len by simp
  from steps [OF this] b1 have s1: "\<exists>c \<in> set [0..<length net_pool].
      c \<notin> used_indices (state_after (fst demo_run ! 0)) \<and>
      used_indices (state_after (fst demo_run ! 1)) =
        insert c (used_indices (state_after (fst demo_run ! 0))) \<and>
      asks_about net_pool c (asked (fst demo_run ! 1))" by simp
  have "(1::nat) \<le> 3 \<and> 3 < length (fst demo_run)" using len by simp
  from mono [OF this]
  have m: "used_indices (state_after (fst demo_run ! 1)) \<subseteq> used_indices (state_after (fst demo_run ! 3))" .
  have "(0::nat) < 3 \<and> 3 < length (fst demo_run)" using len by simp
  from before [OF this] b3
  have n: "used_indices (state_after (fst demo_run ! 0)) \<subseteq> used_indices (state_after (fst demo_run ! 2))"
    by simp
  from run len u0 u1 u3 s1 m n show ?thesis by blast
qed

text \<open>
  Claim C7.  When a run ends with its results, the count of questions reported is the
  number of questions answered, the percentage is 0 when that count is 0 and otherwise
  the value of the Python expression \<^verbatim>\<open>(score / total_questions) * 100\<close> (a float division
  and a float multiplication), and the remark is chosen from the percentage: at least 90
  excellent, else at least 80 great, else at least 70 good, else at least 60 passed,
  else keep practicing.  Ten correct answers out of ten give 100.0 and the excellent
  band.  The score and the count reported are those of the state the run ended in.
\<close>

theorem final_percentage_and_band:
  assumes "run_test tds p g inp = (events, Inr rep)"
  shows "rep_score rep = score (end_state (initial_state g inp) events) \<and>
         rep_total rep = int (length events) \<and>
         rep_percentage rep =
           (if rep_total rep = 0 then 0
            else to_double (to_double (of_int (rep_score rep) / of_int (rep_total rep)) * 100)) \<and>
         rep_band rep =
           (if rep_percentage rep \<ge> 90 then Excellent
            else if rep_percentage rep \<ge> 80 then Great
            else if rep_percentage rep \<ge> 70 then Good
            else if rep_percentage rep \<ge> 60 then Passed
            else KeepPracticing) \<and>
         (rep_score rep = 10 \<and> rep_total rep = 10 \<longrightarrow>
            rep_percentage rep = 100 \<and> rep_band rep = Excellent)"
proof -
  let ?s = "end_state (initial_state g inp) events"
  from run_test_linked [OF assms] have rep: "rep = final_results ?s" by simp
  from run_test_scores [OF assms] have t: "total_questions ?s = int (length events)" by simp
  from rep have 0: "rep_score rep = score ?s"
    by (simp add: final_results_def Let_def)
  from rep t have 1: "rep_total rep = int (length events)"
    by (simp add: final_results_def Let_def)
  from rep t have 2: "rep_percentage rep =
           (if rep_total rep = 0 then 0
            else to_double (to_double (of_int (rep_score rep) / of_int (rep_total rep)) * 100))"
    by (simp add: final_results_def Let_def percentage_of_def)
  from rep have 3: "rep_band rep =
           (if rep_percentage rep \<ge> 90 then Excellent
            else if rep_percentage rep \<ge> 80 then Great
            else if rep_percentage rep \<ge> 70 then Good
            else if rep_percentage rep \<ge> 60 then Passed
            else KeepPracticing)"
    by (simp add: final_results_def Let_def band_of_def)
  have 4: "rep_percentage rep = 100 \<and> rep_band rep = Excellent"
    if "rep_score rep = 10 \<and> rep_total rep = 10"
  proof -
    from rep that have "rep_percentage rep = percentage_of 10 10"
      by (simp add: final_results_def Let_def)
    then have "rep_percentage rep = 100" by (simp add: percentage_of_ten)
    with 3 show ?thesis by simp
  qed
  from 0 1 2 3 4 show ?thesis by blast
qed

theorem final_percentage_and_band_witness:
  "run_test ten_pool perfect_preferences []
     [''2'', ''2'', ''2'', ''2'', ''3'', ''3'', ''3'', ''1'', ''1'', ''1''] =
     (fst perfect_run,
      Inr \<lparr>rep_score = 10, rep_total = 10, rep_percentage = 100, rep_band = Excellent\<rparr>) \<and>
   (10::int) = int (length (fst perfect_run)) \<and>
   (100::rat) = to_double (to_double (of_int 10 / of_int 10) * 100) \<and>
   (100::rat) \<ge> 90"
proof -
  let ?rep = "\<lparr>rep_score = 10, rep_total = 10, rep_percentage = 100, rep_band = Excellent\<rparr>"
  have "snd perfect_run = Inr ?rep" by code_simp
  then have run: "run_test ten_pool perfect_preferences []
     [''2'', ''2'', ''2'', ''2'', ''3'', ''3'', ''3'', ''1'', ''1'', ''1''] = (fst perfect_run, Inr ?rep)"
    by (metis perfect_run_def prod.collapse)
  note main = final_percentage_and_band [OF run]
  from main have "(10::int) = int (length (fst perfect_run))" by simp
  moreover from main [THEN conjunct2, THEN conjunct2, THEN conjunct1]
  have "(100::rat) = to_double (to_double (of_int 10 / of_int 10) * 100)" by simp
  ultimately show ?thesis using run by simp
qed

text \<open>
  Claim C9.  A run starts with score 0 and 0 questions answered.  Every answered
  question raises the count of answered questions by exactly 1 and the score by 1 when
  the user's label is the correct label and by 0 otherwise, and after it
  \<open>0 \<le> score \<le> total_questions\<close>.  The same bounds hold for the numbers reported at the
  end of the run.
\<close>

theorem score_at_most_answered:
  assumes "run_test tds p g inp = (events, r)"
  shows "score (initial_state g inp) = 0 \<and> total_questions (initial_state g inp) = 0 \<and>
         (\<forall>i < length events.
            total_questions (state_after (events ! i)) =
              total_questions (state_before g inp events i) + 1 \<and>
            score (state_after (events ! i)) =
              (if answer_given (events ! i) = correct_label (asked (events ! i))
               then score (state_before g inp events i) + 1
               else score (state_before g inp events i)) \<and>
            0 \<le> score (state_after (events ! i)) \<and>
            score (state_after (events ! i)) \<le> total_questions (state_after (events ! i))) \<and>
         (\<forall>rep. r = Inr rep \<longrightarrow>
            0 \<le> rep_score rep \<and> rep_score rep \<le> rep_total rep \<and>
            rep_total rep = int (length events))"
proof -
  have "total_questions (state_after (events ! i)) =
              total_questions (state_before g inp events i) + 1 \<and>
            score (state_after (events ! i)) =
              (if answer_given (events ! i) = correct_label (asked (events ! i))
               then score (state_before g inp events i) + 1
               else score (state_before g inp events i)) \<and>
            0 \<le> score (state_after (events ! i)) \<and>
            score (state_after (events ! i)) \<le> total_questions (state_after (events ! i))"
    if i: "i < length events" for i
  proof -
    obtain q a s where e: "events ! i = (q, a, s)" by (cases "events ! i")
    from run_test_steps [OF assms i] e
    have "total_questions s = total_questions (state_before g inp events i) + 1"
      "score s = (if a = snd (snd q) then score (state_before g inp events i) + 1
                  else score (state_before g inp events i))"
      by (simp_all add: scored_step_def)
    moreover from i e have "(q, a, s) \<in> set events" by (metis nth_mem)
    with run_test_scores [OF assms] have "0 \<le> score s \<and> score s \<le> total_questions s" by auto
    ultimately show ?thesis
      using e by (simp add: state_after_def answer_given_def asked_def correct_label_def)
  qed
  moreover have "0 \<le> rep_score rep \<and> rep_score rep \<le> rep_total rep \<and>
            rep_total rep = int (length events)" if "r = Inr rep" for rep
  proof -
    from run_test_linked [OF assms] that
    have "rep = final_results (end_state (initial_state g inp) events)" by simp
    with run_test_scores [OF assms] show ?thesis by (simp add: final_results_def Let_def)
  qed
  moreover have "score (initial_state g inp) = 0 \<and> total_questions (initial_state g inp) = 0"
    by (simp add: initial_state_def)
  ultimately show ?thesis by blast
qed

theorem score_at_most_answered_witness:
  "run_test net_pool demo_preferences [1, 2, 3, 4, 5, 6, 7, 8, 9]
     [''1'', ''x'', '' 2 '', ''2'', ''1''] = (fst demo_run, snd demo_run) \<and>
   length (fst demo_run) = 4 \<and>
   answer_given (fst demo_run ! 0) \<noteq> correct_label (asked (fst demo_run ! 0)) \<and>
   total_questions (state_after (fst demo_run ! 0)) = 0 + 1 \<and>
   score (state_after (fst demo_run ! 0)) = 0 \<and>
   answer_given (fst demo_run ! 1) = correct_label (asked (fst demo_run ! 1)) \<and>
   total_questions (state_after (fst demo_run ! 1)) = 1 + 1 \<and>
   score (state_after (fst demo_run ! 1)) = 0 + 1 \<and>
   score (state_after (fst demo_run ! 1)) \<le> total_questions (state_after (fst demo_run ! 1)) \<and>
   snd demo_run =
     Inr \<lparr>rep_score = 2, rep_total = 4, rep_percentage = 50, rep_band = KeepPracticing\<rparr> \<and>
   (0::int) \<le> 2 \<and> (2::int) \<le> 4 \<and> (4::int) = int (length (fst demo_run))"
proof -
  let ?g = "[1, 2, 3, 4, 5, 6, 7, 8, 9 :: nat]"
  let ?inp = "[''1'', ''x'', '' 2 '', ''2'', ''1'']"
  have run: "run_test net_pool demo_preferences ?g ?inp = (fst demo_run, snd demo_run)"
    by (simp add: demo_run_def)
  have len: "length (fst demo_run) = 4" by code_simp
  have a0: "answer_given (fst demo_run ! 0) \<noteq> correct_label (asked (fst demo_run ! 0))"
    by code_simp
  have a1: "answer_given (fst demo_run ! 1) = correct_label (asked (fst demo_run ! 1))"
    by code_simp
  have b0: "total_questions (state_before ?g ?inp (fst demo_run) 0) = 0"
    "score (state_before ?g ?inp (fst demo_run) 0) = 0"
    by (simp_all add: state_before_def initial_state_def)
  have rep: "snd demo_run =
     Inr \<lparr>rep_score = 2, rep_total = 4, rep_percentage = 50, rep_band = KeepPracticing\<rparr>"
    by code_simp
  note main = score_at_most_answered [OF run]
  note steps = main [THEN conjunct2, THEN conjunct2, THEN conjunct1, rule_format]
  note final = main [THEN conjunct2, THEN conjunct2, THEN conjunct2, rule_format]
  have "0 < length (fst demo_run)" "1 < length (fst demo_run)" using len by simp_all
  note s0 = steps [OF this(1)] and s1 = steps [OF this(2)]
  from s0 a0 b0 have t0: "total_questions (state_after (fst demo_run ! 0)) = 0 + 1"
    and c0: "score (state_after (fst demo_run ! 0)) = 0" by simp_all
  have b1: "state_before ?g ?inp (fst demo_run) 1 = state_after (fst demo_run ! 0)"
    by (simp add: state_before_def state_after_def)
  from s1 a1 b1 t0 c0 have t1: "total_questions (state_after (fst demo_run ! 1)) = 1 + 1"
    and c1: "score (state_after (fst demo_run ! 1)) = 0 + 1"
    and d1: "score (state_after (fst demo_run ! 1)) \<le> total_questions (state_after (fst demo_run ! 1))"
    by simp_all
  from final [OF rep]
  have f: "(0::int) \<le> 2 \<and> (2::int) \<le> 4 \<and> (4::int) = int (length (fst demo_run))" by simp
  from run len a0 t0 c0 a1 t1 c1 d1 rep f show ?thesis by blast
qed

end
